theory Spec2Isabelle
  imports Main "HOL-Library.Multiset" "HOL-Library.AList"
begin

section \<open>Flow builder (src/app/builders/flow-builder.ts)\<close>

text \<open>
  The TypeScript interfaces \<^verbatim>\<open>FlowStep\<close> and \<^verbatim>\<open>Flow\<close> become records. Field names
  that clash with HOL constants or with fields of another record carry a prefix:
  \<^verbatim>\<open>id\<close>, \<^verbatim>\<open>name\<close>, \<^verbatim>\<open>type\<close> and \<^verbatim>\<open>action\<close> of a flow step are \<open>step_id\<close>,
  \<open>step_name\<close>, \<open>step_type\<close> and \<open>step_action\<close>. The open-ended \<^verbatim>\<open>config: any\<close> is a
  list of key/value pairs; \<^verbatim>\<open>metadata.created\<close> is a clock reading.
\<close>

datatype step_kind = Analyze | Generate | Test | Deploy | Custom

record FlowStep =
  step_id :: string
  step_name :: string
  step_type :: step_kind
  step_action :: string
  optional :: bool
  dependencies :: "string list"
  config :: "(string \<times> string) list"

record Flow =
  flow_id :: string
  flow_name :: string
  description :: string
  steps :: "FlowStep list"
  created :: nat
  version :: string

record ValidationResult =
  valid :: bool
  errors :: "string list"

text \<open>\<^verbatim>\<open>flow.steps.find(s => s.id === stepId)\<close>: the first step carrying the id.\<close>

definition findStep :: "FlowStep list \<Rightarrow> string \<Rightarrow> FlowStep option" where
  "findStep xs sid = List.find (\<lambda>s. step_id s = sid) xs"

definition stepIds :: "FlowStep list \<Rightarrow> string set" where
  "stepIds xs = set (map step_id xs)"

text \<open>\<^verbatim>\<open>Array.prototype.join\<close>.\<close>

fun join :: "string \<Rightarrow> string list \<Rightarrow> string" where
  "join sep [] = []"
| "join sep [x] = x"
| "join sep (x # y # ys) = x @ sep @ join sep (y # ys)"

definition circularMessage :: "string list \<Rightarrow> string \<Rightarrow> string" where
  "circularMessage path sid =
     ''Circular dependency detected: '' @ join '' -> '' path @ '' -> '' @ sid"

definition missingMessage :: "string \<Rightarrow> string \<Rightarrow> string" where
  "missingMessage sid dep =
     ''Step '' @ [CHR 0x27] @ sid @ [CHR 0x27] @ '' has missing dependency: '' @ dep"

lemma findStep_Some_in: "findStep xs sid = Some s \<Longrightarrow> sid \<in> stepIds xs"
  by (auto simp: findStep_def stepIds_def find_Some_iff)

lemma card_unvisited_less:
  assumes "sid \<in> stepIds xs" "sid \<notin> set path"
  shows "card (stepIds xs - set (path @ [sid])) < card (stepIds xs - set path)"
proof (rule psubset_card_mono)
  show "finite (stepIds xs - set path)" by (simp add: stepIds_def)
  show "stepIds xs - set (path @ [sid]) \<subset> stepIds xs - set path"
    using assms by auto
qed

text \<open>
  The closure \<^verbatim>\<open>checkDependencies\<close> of \<^verbatim>\<open>validateFlow\<close>. The captured \<^verbatim>\<open>visited\<close> set
  and \<^verbatim>\<open>errors\<close> array are the threaded state; \<^verbatim>\<open>path\<close> is a JavaScript \<^verbatim>\<open>Set\<close>, kept
  here as the list of its elements in insertion order (the order \<^verbatim>\<open>Array.from\<close> reads),
  and \<^verbatim>\<open>new Set(path)\<close> hands every callee its own copy. \<open>checkEach\<close> is the
  \<^verbatim>\<open>forEach\<close> over the dependencies.
\<close>

function checkDependencies ::
    "FlowStep list \<Rightarrow> string \<Rightarrow> string list \<Rightarrow> string set \<times> string list
       \<Rightarrow> string set \<times> string list"
  and checkEach ::
    "FlowStep list \<Rightarrow> string list \<Rightarrow> string list \<Rightarrow> string set \<times> string list
       \<Rightarrow> string set \<times> string list"
where
  "checkDependencies xs sid path (visited, errs) =
     (if sid \<in> set path then (visited, errs @ [circularMessage path sid])
      else if sid \<in> visited then (visited, errs)
      else (case findStep xs sid of
              None \<Rightarrow> (insert sid visited, errs)
            | Some step \<Rightarrow>
                checkEach xs (dependencies step) (path @ [sid]) (insert sid visited, errs)))"
| "checkEach xs [] path st = st"
| "checkEach xs (dep # deps) path st =
     checkEach xs deps path (checkDependencies xs dep path st)"
  by pat_completeness auto
termination
proof (relation "inv_image (less_than <*lex*> less_than)
     (\<lambda>x. case x of
        Inl (xs, sid, path, st) \<Rightarrow> (card (stepIds xs - set path), 0)
      | Inr (xs, deps, path, st) \<Rightarrow> (card (stepIds xs - set path), Suc (length deps)))",
    goal_cases)
  case 1
  show ?case by (intro wf_inv_image wf_lex_prod wf_less_than)
next
  case (2 xs sid path visited errs step)
  then have "sid \<in> stepIds xs" by (auto dest: findStep_Some_in)
  with 2 show ?case using card_unvisited_less[of sid xs path] by simp
next
  case 3
  show ?case by simp
next
  case 4
  show ?case by simp
qed

definition missingDependencies :: "FlowStep list \<Rightarrow> string list" where
  "missingDependencies xs =
     concat (map (\<lambda>s. map (missingMessage (step_id s))
                          (filter (\<lambda>dep. findStep xs dep = None) (dependencies s))) xs)"

definition circularErrors :: "FlowStep list \<Rightarrow> string list" where
  "circularErrors xs = snd (checkEach xs (map step_id xs) [] ({}, []))"

definition validateFlow :: "Flow \<Rightarrow> ValidationResult" where
  "validateFlow flow =
     (let errs = circularErrors (steps flow) @ missingDependencies (steps flow)
      in \<lparr>valid = (errs = []), errors = errs\<rparr>)"

text \<open>
  The closure \<^verbatim>\<open>visit\<close> of \<^verbatim>\<open>optimizeFlow\<close>, with the captured \<^verbatim>\<open>visited\<close> set and
  \<^verbatim>\<open>sorted\<close> array as threaded state; \<open>visitEach\<close> is \<^verbatim>\<open>step.dependencies.forEach(visit)\<close>.
\<close>

function visit ::
    "FlowStep list \<Rightarrow> string \<Rightarrow> string set \<times> FlowStep list \<Rightarrow> string set \<times> FlowStep list"
  and visitEach ::
    "FlowStep list \<Rightarrow> string list \<Rightarrow> string set \<times> FlowStep list
       \<Rightarrow> string set \<times> FlowStep list"
where
  "visit xs sid (visited, acc) =
     (if sid \<in> visited then (visited, acc)
      else (case findStep xs sid of
              None \<Rightarrow> (insert sid visited, acc)
            | Some step \<Rightarrow>
                (case visitEach xs (dependencies step) (insert sid visited, acc) of
                   (visited', acc') \<Rightarrow> (visited', acc' @ [step]))))"
| "visitEach xs [] st = st"
| "visitEach xs (dep # deps) st = visitEach xs deps (visit xs dep st)"
  by pat_completeness auto

lemma visit_dom_visited_mono:
  "visit_visitEach_dom (Inl (xs, sid, st)) \<Longrightarrow> fst st \<subseteq> fst (visit xs sid st)"
  "visit_visitEach_dom (Inr (xs, deps, st)) \<Longrightarrow> fst st \<subseteq> fst (visitEach xs deps st)"
proof (induction xs sid st and xs deps st rule: visit_visitEach.pinduct)
  case (1 xs sid visited acc)
  show ?case
  proof (cases "sid \<in> visited")
    case True
    with 1 show ?thesis by (simp add: visit.psimps)
  next
    case False
    show ?thesis
    proof (cases "findStep xs sid")
      case None
      with False 1 show ?thesis by (auto simp: visit.psimps)
    next
      case (Some step)
      with False 1 show ?thesis
        by (auto simp: visit.psimps split: prod.splits)
    qed
  qed
next
  case (2 xs st)
  then show ?case by (simp add: visitEach.psimps)
next
  case (3 xs dep deps st)
  then show ?case by (auto simp: visitEach.psimps)
qed

termination visit
proof (relation "inv_image (less_than <*lex*> less_than)
     (\<lambda>x. case x of
        Inl (xs, sid, st) \<Rightarrow> (card (stepIds xs - fst st), 0)
      | Inr (xs, deps, st) \<Rightarrow> (card (stepIds xs - fst st), Suc (length deps)))",
    goal_cases)
  case 1
  show ?case by (intro wf_inv_image wf_lex_prod wf_less_than)
next
  case (2 xs sid visited acc step)
  then have "sid \<in> stepIds xs" by (auto dest: findStep_Some_in)
  with 2 have "stepIds xs - insert sid visited \<subset> stepIds xs - visited" by auto
  then have "card (stepIds xs - insert sid visited) < card (stepIds xs - visited)"
    by (intro psubset_card_mono) (simp_all add: stepIds_def)
  then show ?case by simp
next
  case 3
  show ?case by simp
next
  case (4 xs dep deps st)
  then have "fst st \<subseteq> fst (visit xs dep st)" by (rule visit_dom_visited_mono)
  then have "stepIds xs - fst (visit xs dep st) \<subseteq> stepIds xs - fst st" by auto
  then have "card (stepIds xs - fst (visit xs dep st)) \<le> card (stepIds xs - fst st)"
    by (intro card_mono) (simp_all add: stepIds_def)
  then show ?case by auto
qed

definition topologicalOrder :: "FlowStep list \<Rightarrow> FlowStep list" where
  "topologicalOrder xs = snd (visitEach xs (map step_id xs) ({}, []))"

definition optimizeFlow :: "Flow \<Rightarrow> Flow" where
  "optimizeFlow flow = flow\<lparr>steps := topologicalOrder (steps flow)\<rparr>"

subsection \<open>buildFlow\<close>

text \<open>
  \<^verbatim>\<open>Partial<FlowStep>\<close>: every field may be absent. \<^verbatim>\<open>a || b\<close> takes \<open>b\<close> when \<open>a\<close> is
  absent or the empty string; \<^verbatim>\<open>a ?? b\<close> only when \<open>a\<close> is absent. The two clock readings
  (\<^verbatim>\<open>Date.now()\<close> for the id, \<^verbatim>\<open>new Date()\<close> for the metadata) are parameters.
\<close>

definition digit :: "nat \<Rightarrow> char" where
  "digit d = ''0123456789'' ! d"

fun digits :: "nat \<Rightarrow> string" where
  "digits n = (if n < 10 then [digit n] else digits (n div 10) @ [digit (n mod 10)])"

declare digits.simps [simp del]

record PartialFlowStep =
  p_id :: "string option"
  p_name :: "string option"
  p_type :: "step_kind option"
  p_action :: "string option"
  p_optional :: "bool option"
  p_dependencies :: "string list option"
  p_config :: "(string \<times> string) list option"

record FlowConfig =
  cfg_name :: string
  cfg_description :: string
  cfg_steps :: "PartialFlowStep list"

definition orString :: "string option \<Rightarrow> string \<Rightarrow> string" where
  "orString v d = (case v of None \<Rightarrow> d | Some s \<Rightarrow> if s = [] then d else s)"

definition buildStep :: "nat \<Rightarrow> PartialFlowStep \<Rightarrow> FlowStep" where
  "buildStep index step =
     \<lparr>step_id = orString (p_id step) (''step-'' @ digits index),
      step_name = orString (p_name step) (''Step '' @ digits (index + 1)),
      step_type = (case p_type step of None \<Rightarrow> Custom | Some t \<Rightarrow> t),
      step_action = orString (p_action step) ''process'',
      optional = (case p_optional step of None \<Rightarrow> False | Some b \<Rightarrow> b),
      dependencies = (case p_dependencies step of None \<Rightarrow> [] | Some ds \<Rightarrow> ds),
      config = (case p_config step of None \<Rightarrow> [] | Some c \<Rightarrow> c)\<rparr>"

definition buildFlow :: "FlowConfig \<Rightarrow> nat \<Rightarrow> nat \<Rightarrow> Flow" where
  "buildFlow cfg now clock =
     \<lparr>flow_id = ''flow-'' @ digits now,
      flow_name = cfg_name cfg,
      description = cfg_description cfg,
      steps = map (\<lambda>(index, step). buildStep index step) (enumerate 0 (cfg_steps cfg)),
      created = clock,
      version = ''1.0.0''\<rparr>"

text \<open>Shorthands for the concrete flows of the scenarios below.\<close>

definition mkStep :: "string \<Rightarrow> string list \<Rightarrow> FlowStep" where
  "mkStep sid deps =
     \<lparr>step_id = sid, step_name = sid, step_type = Custom, step_action = ''process'',
      optional = False, dependencies = deps, config = []\<rparr>"

definition mkFlow :: "FlowStep list \<Rightarrow> Flow" where
  "mkFlow xs =
     \<lparr>flow_id = ''flow-0'', flow_name = ''example'', description = [], steps = xs,
      created = 0, version = ''1.0.0''\<rparr>"

section \<open>Workflow builder (src/app/builders/workflow-builder.ts)\<close>

text \<open>
  A thrown value is an error object: the name of its class (\<^verbatim>\<open>error.name\<close>) and its
  message. \<^verbatim>\<open>new Error(msg)\<close>, the only error the code itself constructs, has the name
  \<^verbatim>\<open>Error\<close>; collaborators and callbacks may throw errors of any class.

  An action is \<^verbatim>\<open>() => Promise<any>\<close>. Each call of it starts a promise that resolves or
  rejects after some milliseconds, or never settles; a stateful action may behave
  differently from call to call, so \<open>action step k\<close> is what the call number \<open>k\<close>
  (counted from 0) does. A call that throws before returning a promise is a rejection
  after 0 ms.

  \<^verbatim>\<open>condition\<close>, \<^verbatim>\<open>onSuccess\<close> and \<^verbatim>\<open>onError\<close> are optional callbacks, and any of them may
  throw: \<open>condition\<close> is absent, returns a boolean or throws; a handler returns
  (\<open>None\<close>) or throws (\<open>Some e\<close>).

  \<^verbatim>\<open>retries\<close> and \<^verbatim>\<open>timeout\<close> are JavaScript numbers; the model takes the integers.

  The interface has no field for dependencies and none for optional steps. TypeScript
  types are structural, so a caller may hand over step objects that carry more
  properties (the builders guide of the repository writes \<^verbatim>\<open>dependencies: [...]\<close> on a
  workflow step); the engine is defined on the record scheme and so on every such
  extension, of which it can read nothing.
\<close>

datatype js_error = Thrown (error_name: string) (error_message: string)

abbreviation Error :: "string \<Rightarrow> js_error" where
  "Error msg \<equiv> Thrown ''Error'' msg"

datatype 'v settlement = Resolves nat 'v | Rejects nat js_error | Hangs

record 'v WorkflowStep =
  wid :: string
  wname :: string
  action :: "nat \<Rightarrow> 'v settlement"
  parallel :: "bool option"
  condition :: "(js_error + bool) option"
  onSuccess :: "('v option \<Rightarrow> js_error option) option"
  onError :: "(js_error \<Rightarrow> js_error option) option"
  retries :: "int option"
  timeout :: "int option"

record ('v, 'm) Workflow =
  workflow_id :: string
  workflow_name :: string
  wsteps :: "('v, 'm) WorkflowStep_scheme list"
  wparallel :: bool

text \<open>
  What a run does that an observer can see: calls of actions, the retry line on the
  console, calls of the handlers, and the error \<^verbatim>\<open>execute\<close> prints.
\<close>

datatype event =
    Invoked string
  | Retrying string int int
  | SuccessCallback string
  | ErrorCallback string
  | ConsoleError js_error

text \<open>
  The two \<^verbatim>\<open>Map\<close>s of a run (\<^verbatim>\<open>results\<close>, \<^verbatim>\<open>errors\<close>) are association lists in insertion
  order, as a JavaScript \<^verbatim>\<open>Map\<close> iterates; \<^verbatim>\<open>Map.set\<close> is \<open>AList.update\<close>. A resolved
  value is \<open>Some v\<close>, \<^verbatim>\<open>undefined\<close> is \<open>None\<close>. The wall-clock \<^verbatim>\<open>duration\<close> of a
  \<^verbatim>\<open>WorkflowResult\<close> is left out.
\<close>

record 'v RunState =
  results :: "(string \<times> 'v option) list"
  failures :: "(string \<times> js_error) list"
  trace :: "event list"

record 'v WorkflowResult =
  success :: bool
  wresults :: "(string \<times> 'v option) list"
  werrors :: "(string \<times> js_error) list"

text \<open>How one turn of the \<^verbatim>\<open>for\<close> loop of \<^verbatim>\<open>executeSequential\<close> ends.\<close>

datatype loop_exit = Continue | Break | Raise js_error

text \<open>
  \<^verbatim>\<open>createWorkflow\<close>, \<^verbatim>\<open>addStep\<close>, \<^verbatim>\<open>setParallel\<close> on the \<^verbatim>\<open>workflows\<close> map of the
  builder.
\<close>

definition createWorkflow ::
    "(string \<times> ('v, 'm) Workflow) list \<Rightarrow> string \<Rightarrow> nat \<Rightarrow> (string \<times> ('v, 'm) Workflow) list" where
  "createWorkflow workflows wfname now =
     AList.update wfname
       \<lparr>workflow_id = ''workflow-'' @ digits now, workflow_name = wfname, wsteps = [],
        wparallel = False\<rparr> workflows"

definition addStep ::
    "(string \<times> ('v, 'm) Workflow) list \<Rightarrow> string \<Rightarrow> ('v, 'm) WorkflowStep_scheme
       \<Rightarrow> (string \<times> ('v, 'm) Workflow) list" where
  "addStep workflows wfname step =
     (case map_of workflows wfname of
        None \<Rightarrow> workflows
      | Some w \<Rightarrow> AList.update wfname (w\<lparr>wsteps := wsteps w @ [step]\<rparr>) workflows)"

definition setParallel ::
    "(string \<times> ('v, 'm) Workflow) list \<Rightarrow> string \<Rightarrow> bool \<Rightarrow> (string \<times> ('v, 'm) Workflow) list" where
  "setParallel workflows wfname b =
     (case map_of workflows wfname of
        None \<Rightarrow> workflows
      | Some w \<Rightarrow> AList.update wfname (w\<lparr>wparallel := b\<rparr>) workflows)"

text \<open>
  \<^verbatim>\<open>setTimeout\<close> of Node.js: a delay below 1 ms or above \<open>2^31 - 1\<close> ms is set to 1 ms.
\<close>

definition timerDelay :: "int \<Rightarrow> nat" where
  "timerDelay ms = (if ms < 1 \<or> 2147483647 < ms then 1 else nat ms)"

text \<open>
  \<^verbatim>\<open>executeWithTimeout\<close>: \<^verbatim>\<open>Promise.race\<close> of the action's promise and a timer. The action
  is called before the timer is set, so a promise that settles at the very millisecond
  the timer fires wins the race.
\<close>

definition executeWithTimeout :: "'v settlement \<Rightarrow> int \<Rightarrow> js_error + 'v" where
  "executeWithTimeout p ms =
     (case p of
        Resolves d v \<Rightarrow> if d \<le> timerDelay ms then Inr v else Inl (Error ''Timeout'')
      | Rejects d e \<Rightarrow> if d \<le> timerDelay ms then Inl e else Inl (Error ''Timeout'')
      | Hangs \<Rightarrow> Inl (Error ''Timeout''))"

text \<open>\<^verbatim>\<open>step.retries || 0\<close> and \<^verbatim>\<open>step.timeout || 30000\<close>.\<close>

definition retriesOf :: "('v, 'm) WorkflowStep_scheme \<Rightarrow> int" where
  "retriesOf step = (case retries step of None \<Rightarrow> 0 | Some n \<Rightarrow> n)"

definition timeoutOf :: "('v, 'm) WorkflowStep_scheme \<Rightarrow> int" where
  "timeoutOf step =
     (case timeout step of None \<Rightarrow> 30000 | Some ms \<Rightarrow> if ms = 0 then 30000 else ms)"

text \<open>
  The \<^verbatim>\<open>for\<close> loop of \<^verbatim>\<open>executeStep\<close>, from a given value of \<^verbatim>\<open>attempt\<close>. It returns what
  the promise of \<^verbatim>\<open>executeStep\<close> settles to (\<open>Inl\<close>: rejected) and what was observed.
  When the loop body never runs the function falls off its end: \<^verbatim>\<open>undefined\<close>.
\<close>

function attemptLoop ::
    "('v, 'm) WorkflowStep_scheme \<Rightarrow> int \<Rightarrow> (js_error + 'v option) \<times> event list" where
  "attemptLoop step attempt =
     (if attempt \<le> retriesOf step then
        (case executeWithTimeout (action step (nat attempt)) (timeoutOf step) of
           Inr v \<Rightarrow> (Inr (Some v), [Invoked (wid step)])
         | Inl e \<Rightarrow>
             if attempt = retriesOf step then (Inl e, [Invoked (wid step)])
             else (case attemptLoop step (attempt + 1) of
                     (r, tr) \<Rightarrow>
                       (r, Invoked (wid step)
                             # Retrying (wname step) (attempt + 1) (retriesOf step) # tr)))
      else (Inr None, []))"
  by pat_completeness auto
termination
  by (relation "measure (\<lambda>(step, attempt). nat (retriesOf step + 1 - attempt))") auto

declare attemptLoop.simps [simp del]

definition executeStep ::
    "('v, 'm) WorkflowStep_scheme \<Rightarrow> (js_error + 'v option) \<times> event list" where
  "executeStep step = attemptLoop step 0"

text \<open>
  The \<^verbatim>\<open>catch\<close> block shared by both policies: record the error, call \<^verbatim>\<open>onError\<close>, and
  (sequential policy) \<^verbatim>\<open>break\<close>. A throwing handler leaves the loop by the exception.
\<close>

definition failStep ::
    "('v, 'm) WorkflowStep_scheme \<Rightarrow> js_error \<Rightarrow> 'v RunState \<Rightarrow> loop_exit \<times> 'v RunState" where
  "failStep step err st =
     (let st1 = st\<lparr>failures := AList.update (wid step) err (failures st)\<rparr>
      in case onError step of
           None \<Rightarrow> (Break, st1)
         | Some handler \<Rightarrow>
             (let st2 = st1\<lparr>trace := trace st1 @ [ErrorCallback (wid step)]\<rparr>
              in case handler err of None \<Rightarrow> (Break, st2) | Some thrown \<Rightarrow> (Raise thrown, st2)))"

text \<open>The body of the loop of \<^verbatim>\<open>executeSequential\<close>, for one step.\<close>

definition runBody ::
    "('v, 'm) WorkflowStep_scheme \<Rightarrow> 'v RunState \<Rightarrow> loop_exit \<times> 'v RunState" where
  "runBody step st =
     (case condition step of
        Some (Inl thrown) \<Rightarrow> failStep step thrown st
      | Some (Inr False) \<Rightarrow> (Continue, st)
      | _ \<Rightarrow>
          (case executeStep step of
             (Inl err, tr) \<Rightarrow> failStep step err (st\<lparr>trace := trace st @ tr\<rparr>)
           | (Inr v, tr) \<Rightarrow>
               (let st1 = st\<lparr>results := AList.update (wid step) v (results st),
                              trace := trace st @ tr\<rparr>
                in case onSuccess step of
                     None \<Rightarrow> (Continue, st1)
                   | Some handler \<Rightarrow>
                       (let st2 = st1\<lparr>trace := trace st1 @ [SuccessCallback (wid step)]\<rparr>
                        in case handler v of
                             None \<Rightarrow> (Continue, st2)
                           | Some thrown \<Rightarrow> failStep step thrown st2))))"

fun executeSequential ::
    "('v, 'm) WorkflowStep_scheme list \<Rightarrow> 'v RunState \<Rightarrow> js_error option \<times> 'v RunState" where
  "executeSequential [] st = (None, st)"
| "executeSequential (step # rest) st =
     (case runBody step st of
        (Continue, st') \<Rightarrow> executeSequential rest st'
      | (Break, st') \<Rightarrow> (None, st')
      | (Raise thrown, st') \<Rightarrow> (Some thrown, st'))"

text \<open>
  \<^verbatim>\<open>executeParallel\<close> maps an \<^verbatim>\<open>async\<close> callback over the steps and then awaits
  \<^verbatim>\<open>Promise.all\<close> of the promises. An \<^verbatim>\<open>async\<close> function runs synchronously up to its
  first \<^verbatim>\<open>await\<close>, so the \<^verbatim>\<open>map\<close> itself, step by step in declaration order, evaluates
  the condition and, through \<^verbatim>\<open>executeStep\<close> and \<^verbatim>\<open>executeWithTimeout\<close>, calls the action
  for attempt 0 (when the retry loop runs at all); a throwing condition runs the
  \<^verbatim>\<open>catch\<close> block on the spot. From then on every callback waits for the race of its
  attempt in flight.

  JavaScript runs one continuation at a time, to its end. When the race of a step
  settles, the continuation of its callback either records the result and calls
  \<^verbatim>\<open>onSuccess\<close>, or prints the retry line and calls the action again, or records the error
  and calls \<^verbatim>\<open>onError\<close>. The order in which the races of different steps settle is set by
  the timing of the actions: the schedule \<open>sched\<close> is that order. Each entry picks one
  of the steps in flight (counted modulo their number; an exhausted schedule picks the
  first). The properties below hold for every schedule.

  The state of a parallel run: the maps and the observations; the steps in flight, each
  with its attempt in flight (or \<open>None\<close> for a callback whose retry loop never ran, so
  that \<^verbatim>\<open>executeStep\<close> resolved to \<^verbatim>\<open>undefined\<close>); and the first exception that escaped a
  callback, which is what \<^verbatim>\<open>Promise.all\<close> rejects with. Only a throwing \<^verbatim>\<open>onError\<close> lets an
  exception escape.
\<close>

type_synonym ('v, 'm) parallel_run =
  "'v RunState \<times> (('v, 'm) WorkflowStep_scheme \<times> int option) list \<times> js_error option"

definition absorb :: "loop_exit \<Rightarrow> js_error option \<Rightarrow> js_error option" where
  "absorb how rejection =
     (case how of
        Raise thrown \<Rightarrow> (case rejection of None \<Rightarrow> Some thrown | Some first \<Rightarrow> Some first)
      | _ \<Rightarrow> rejection)"

text \<open>
  The callback after \<^verbatim>\<open>await this.executeStep(step)\<close> has returned a result: record it,
  call \<^verbatim>\<open>onSuccess\<close>; a throwing handler lands in the \<^verbatim>\<open>catch\<close> block.
\<close>

definition succeedStep ::
    "('v, 'm) WorkflowStep_scheme \<Rightarrow> 'v option \<Rightarrow> 'v RunState \<Rightarrow> loop_exit \<times> 'v RunState" where
  "succeedStep step v st =
     (let st1 = st\<lparr>results := AList.update (wid step) v (results st)\<rparr>
      in case onSuccess step of
           None \<Rightarrow> (Continue, st1)
         | Some handler \<Rightarrow>
             (let st2 = st1\<lparr>trace := trace st1 @ [SuccessCallback (wid step)]\<rparr>
              in case handler v of
                   None \<Rightarrow> (Continue, st2)
                 | Some thrown \<Rightarrow> failStep step thrown st2))"

text \<open>The synchronous part of the callback, for one step.\<close>

definition launch ::
    "('v, 'm) WorkflowStep_scheme \<Rightarrow> ('v, 'm) parallel_run \<Rightarrow> ('v, 'm) parallel_run" where
  "launch step = (\<lambda>(st, inflight, rejection).
     (case condition step of
        Some (Inl thrown) \<Rightarrow>
          (case failStep step thrown st of
             (how, st') \<Rightarrow> (st', inflight, absorb how rejection))
      | Some (Inr False) \<Rightarrow> (st, inflight, rejection)
      | _ \<Rightarrow>
          if 0 \<le> retriesOf step
          then (st\<lparr>trace := trace st @ [Invoked (wid step)]\<rparr>,
                inflight @ [(step, Some 0)], rejection)
          else (st, inflight @ [(step, None)], rejection)))"

definition launchAll ::
    "('v, 'm) WorkflowStep_scheme list \<Rightarrow> 'v RunState \<Rightarrow> ('v, 'm) parallel_run" where
  "launchAll xs st = fold launch xs (st, [], None)"

text \<open>
  The continuation of the callback of the step in flight at position \<open>i\<close>, when its race
  (or its \<^verbatim>\<open>undefined\<close>) has settled. After a failed attempt that is not the last, the
  \<^verbatim>\<open>for\<close> loop prints the retry line, increments \<^verbatim>\<open>attempt\<close> and tests it again before
  it calls the action.
\<close>

definition settle :: "nat \<Rightarrow> ('v, 'm) parallel_run \<Rightarrow> ('v, 'm) parallel_run" where
  "settle i = (\<lambda>(st, inflight, rejection).
     (let others = take i inflight @ drop (Suc i) inflight
      in case inflight ! i of
           (step, None) \<Rightarrow>
             (case succeedStep step None st of
                (how, st') \<Rightarrow> (st', others, absorb how rejection))
         | (step, Some attempt) \<Rightarrow>
             (case executeWithTimeout (action step (nat attempt)) (timeoutOf step) of
                Inr v \<Rightarrow>
                  (case succeedStep step (Some v) st of
                     (how, st') \<Rightarrow> (st', others, absorb how rejection))
              | Inl e \<Rightarrow>
                  if attempt = retriesOf step
                  then (case failStep step e st of
                          (how, st') \<Rightarrow> (st', others, absorb how rejection))
                  else
                    (let st1 = st\<lparr>trace := trace st @
                                  [Retrying (wname step) (attempt + 1) (retriesOf step)]\<rparr>
                     in if attempt + 1 \<le> retriesOf step
                        then (st1\<lparr>trace := trace st1 @ [Invoked (wid step)]\<rparr>,
                              inflight[i := (step, Some (attempt + 1))], rejection)
                        else (st1, inflight[i := (step, None)], rejection)))))"

text \<open>What is left to do for the steps in flight; every continuation makes it less.\<close>

definition work :: "(('v, 'm) WorkflowStep_scheme \<times> int option) list \<Rightarrow> nat" where
  "work inflight =
     sum_list (map (\<lambda>(step, attempt).
                      case attempt of None \<Rightarrow> 1 | Some k \<Rightarrow> nat (retriesOf step - k) + 2)
                 inflight)"

lemma work_insert:
  "work (xs @ (step, attempt) # ys) =
     work (xs @ ys) + (case attempt of None \<Rightarrow> 1 | Some k \<Rightarrow> nat (retriesOf step - k) + 2)"
  by (cases attempt) (simp_all add: work_def)

lemma work_remove:
  assumes "i < length inflight"
  shows "work (take i inflight @ drop (Suc i) inflight) < work inflight"
proof -
  obtain step attempt where x: "inflight ! i = (step, attempt)" by (cases "inflight ! i")
  have "work inflight = work (take i inflight @ (step, attempt) # drop (Suc i) inflight)"
    using id_take_nth_drop[OF assms] x by simp
  then have "work inflight =
      work (take i inflight @ drop (Suc i) inflight) +
      (case attempt of None \<Rightarrow> 1 | Some k \<Rightarrow> nat (retriesOf step - k) + 2)"
    by (simp only: work_insert)
  then show ?thesis by (cases attempt) simp_all
qed

lemma work_update:
  assumes "i < length inflight" and "inflight ! i = (step, Some k)"
    and "(case a of None \<Rightarrow> 1 | Some j \<Rightarrow> nat (retriesOf step - j) + 2)
           < nat (retriesOf step - k) + 2"
  shows "work (inflight[i := (step, a)]) < work inflight"
proof -
  have "work inflight = work (take i inflight @ (step, Some k) # drop (Suc i) inflight)"
    using id_take_nth_drop[OF assms(1)] assms(2) by simp
  then have 1: "work inflight =
      work (take i inflight @ drop (Suc i) inflight) + (nat (retriesOf step - k) + 2)"
    by (simp only: work_insert option.case)
  have "inflight[i := (step, a)] = take i inflight @ (step, a) # drop (Suc i) inflight"
    using assms(1) by (simp add: upd_conv_take_nth_drop)
  then have 2: "work (inflight[i := (step, a)]) =
      work (take i inflight @ drop (Suc i) inflight) +
      (case a of None \<Rightarrow> 1 | Some j \<Rightarrow> nat (retriesOf step - j) + 2)"
    by (simp only: work_insert)
  from 1 2 assms(3) show ?thesis by linarith
qed

lemma settle_work:
  assumes "i < length inflight"
  shows "(case settle i (st, inflight, rejection) of (st', inflight', rejection') \<Rightarrow> work inflight')
           < work inflight"
proof -
  obtain step attempt where x: "inflight ! i = (step, attempt)" by (cases "inflight ! i")
  note rm = work_remove[OF assms]
  show ?thesis
  proof (cases attempt)
    case None
    with x rm show ?thesis by (simp add: settle_def Let_def split: prod.splits)
  next
    case (Some k)
    show ?thesis
    proof (cases "executeWithTimeout (action step (nat k)) (timeoutOf step)")
      case (Inr v)
      with x Some rm show ?thesis by (simp add: settle_def Let_def split: prod.splits)
    next
      case (Inl e)
      show ?thesis
      proof (cases "k = retriesOf step")
        case True
        with x Some Inl rm show ?thesis by (simp add: settle_def Let_def split: prod.splits)
      next
        case False
        have a: "work (inflight[i := (step, Some (k + 1))]) < work inflight"
          if "k + 1 \<le> retriesOf step"
          using that by (intro work_update[OF assms]) (use x Some in auto)
        have b: "work (inflight[i := (step, None)]) < work inflight"
          by (intro work_update[OF assms]) (use x Some in auto)
        from x Some Inl False a b show ?thesis by (simp add: settle_def Let_def)
      qed
    qed
  qed
qed

lemma settle_decreases:
  assumes "inflight \<noteq> []"
  shows "(case settle (c mod length inflight) (st, inflight, rejection) of
            (st', inflight', rejection') \<Rightarrow> work inflight') < work inflight"
proof -
  have "c mod length inflight < length inflight" using assms by simp
  then show ?thesis by (rule settle_work)
qed

text \<open>
  \<^verbatim>\<open>await Promise.all(promises)\<close>: the continuations run, in the order of the schedule,
  until no step is in flight, or until \<^verbatim>\<open>Promise.all\<close> has rejected and \<^verbatim>\<open>execute\<close> has
  caught the rejection. Between the rejection and the \<^verbatim>\<open>return\<close> of \<^verbatim>\<open>execute\<close> lie a few
  turns of the job queue, in which continuations that were already due still run:
  \<open>lag\<close> is their number, and the properties below hold for every \<open>lag\<close>.
\<close>

function settleAll ::
    "nat list \<Rightarrow> nat \<Rightarrow> ('v, 'm) parallel_run \<Rightarrow> ('v, 'm) parallel_run" where
  "settleAll sched lag (st, inflight, rejection) =
     (if inflight = [] \<or> (rejection \<noteq> None \<and> lag = 0) then (st, inflight, rejection)
      else settleAll (tl sched) (if rejection = None then lag else lag - 1)
             (settle ((case sched of [] \<Rightarrow> 0 | c # _ \<Rightarrow> c) mod length inflight)
                (st, inflight, rejection)))"
  by pat_completeness auto
termination
  by (relation "measure (\<lambda>(sched, lag, st, inflight, rejection). work inflight)")
    (auto intro: settle_decreases)

declare settleAll.simps [simp del]

definition executeParallel ::
    "('v, 'm) WorkflowStep_scheme list \<Rightarrow> nat list \<Rightarrow> nat \<Rightarrow> 'v RunState
       \<Rightarrow> ('v, 'm) parallel_run" where
  "executeParallel xs sched lag st = settleAll sched lag (launchAll xs st)"

text \<open>
  \<^verbatim>\<open>execute\<close>: an unknown workflow name is the only error it throws; an exception out of
  either policy is caught and printed. The result is built when \<^verbatim>\<open>execute\<close> returns.
  Under the parallel policy that may be while steps are still in flight (after a
  rejection): they go on writing into the two maps, which the returned result shares;
  the model gives the maps as they are at the return.
\<close>

datatype 'v execution = Completed "'v WorkflowResult" "event list"

definition notFound :: "string \<Rightarrow> js_error" where
  "notFound wfname = Error (''Workflow '' @ [CHR 0x27] @ wfname @ [CHR 0x27] @ '' not found'')"

definition execute ::
    "(string \<times> ('v, 'm) Workflow) list \<Rightarrow> string \<Rightarrow> nat list \<Rightarrow> nat
       \<Rightarrow> js_error + 'v execution" where
  "execute workflows wfname sched lag =
     (case map_of workflows wfname of
        None \<Rightarrow> Inl (notFound wfname)
      | Some workflow \<Rightarrow>
          (let st0 = \<lparr>results = [], failures = [], trace = []\<rparr>
           in case (if wparallel workflow
                    then (case executeParallel (wsteps workflow) sched lag st0 of
                            (st, inflight, rejection) \<Rightarrow> (rejection, st))
                    else executeSequential (wsteps workflow) st0) of
                (thrown, st) \<Rightarrow>
                  Inr (Completed
                        \<lparr>success = (failures st = []), wresults = results st,
                         werrors = failures st\<rparr>
                        (trace st @
                           (case thrown of None \<Rightarrow> [] | Some e \<Rightarrow> [ConsoleError e])))))"

text \<open>
  Step objects that declare more than the interface has: the dependencies and the
  optional flag of the specification's node.
\<close>

record 'v DeclaredStep = "'v WorkflowStep" +
  declared_dependencies :: "string list"
  declared_optional :: bool

section \<open>Orchestrator (class AiCodeOrchestrator, src/unnamed/part_003)\<close>

text \<open>
  The collaborators (\<^verbatim>\<open>AutoSync\<close>, \<^verbatim>\<open>AutoConfig\<close>, the analysis engine, \<^verbatim>\<open>AutoRepair\<close>,
  \<^verbatim>\<open>AutoFix\<close>, \<^verbatim>\<open>AutoTest\<close>, \<^verbatim>\<open>AutoComments\<close>, \<^verbatim>\<open>AutoDeploy\<close>) are opaque: each call
  returns a result object, of which the orchestrator reads \<^verbatim>\<open>success\<close>, or throws.
  \<^verbatim>\<open>mode\<close> is a string: the command line casts \<^verbatim>\<open>process.argv[2]\<close> to the mode type
  unchecked. \<open>OrchestratorResult\<close> is the object \<^verbatim>\<open>orchestrate\<close> returns, with its
  fields \<^verbatim>\<open>success\<close> and \<^verbatim>\<open>phases\<close> (the wall-clock fields \<^verbatim>\<open>duration\<close> and \<^verbatim>\<open>timestamp\<close> are
  left out); it has no field for an error. An \<open>Orchestration\<close> is what a call of
  \<^verbatim>\<open>orchestrate\<close> lets one observe: the object returned, the tools called in order, and
  the error printed by \<^verbatim>\<open>console.error\<close>, if any.
\<close>

datatype tool =
  AutoSync | AutoConfig | Analysis | AutoRepair | AutoFix | AutoTest | AutoComments | AutoDeploy

record PhaseResult =
  phase_success :: bool
  phase_data :: string

datatype outcome = Returns PhaseResult | Throws js_error

record OrchestratorConfig =
  target :: string
  mode :: string
  watch :: "bool option"
  interval :: "nat option"
  deployPlatform :: "string option"

record Run =
  phases :: "(string \<times> PhaseResult) list"
  invoked :: "tool list"

record OrchestratorResult =
  orchestration_success :: bool
  orchestration_phases :: "(string \<times> PhaseResult) list"

record Orchestration =
  returned :: OrchestratorResult
  tools_invoked :: "tool list"
  console_error :: "js_error option"

text \<open>
  An \<^verbatim>\<open>async\<close> method body over the state of the run: \<open>Inl\<close> is a thrown error, with
  the state it leaves behind. \<open>andThen\<close> is sequencing by \<^verbatim>\<open>await\<close>.
\<close>

type_synonym 'a job = "Run \<Rightarrow> (js_error \<times> Run) + ('a \<times> Run)"

definition andThen :: "'a job \<Rightarrow> ('a \<Rightarrow> 'b job) \<Rightarrow> 'b job" where
  "andThen m f = (\<lambda>r. case m r of Inl failure \<Rightarrow> Inl failure | Inr (a, r') \<Rightarrow> f a r')"

definition throw :: "js_error \<Rightarrow> 'a job" where
  "throw e = (\<lambda>r. Inl (e, r))"

definition proceed :: "unit job" where
  "proceed = (\<lambda>r. Inr ((), r))"

definition setPhase :: "string \<Rightarrow> PhaseResult \<Rightarrow> unit job" where
  "setPhase key res = (\<lambda>r. Inr ((), r\<lparr>phases := AList.update key res (phases r)\<rparr>))"

definition runTool :: "(tool \<Rightarrow> outcome) \<Rightarrow> tool \<Rightarrow> PhaseResult job" where
  "runTool env t =
     (\<lambda>r. let r' = r\<lparr>invoked := invoked r @ [t]\<rparr>
          in case env t of Throws e \<Rightarrow> Inl (e, r') | Returns res \<Rightarrow> Inr (res, r'))"

text \<open>\<^verbatim>\<open>runAutoConfig\<close> awaits \<^verbatim>\<open>configure()\<close> and returns \<^verbatim>\<open>{ success: true }\<close>.\<close>

definition runAutoConfig :: "(tool \<Rightarrow> outcome) \<Rightarrow> PhaseResult job" where
  "runAutoConfig env =
     andThen (runTool env AutoConfig) (\<lambda>_ r. Inr (\<lparr>phase_success = True, phase_data = []\<rparr>, r))"

definition phase :: "string \<Rightarrow> PhaseResult job \<Rightarrow> unit job" where
  "phase key m = andThen m (setPhase key)"

definition runFullAutomation :: "OrchestratorConfig \<Rightarrow> (tool \<Rightarrow> outcome) \<Rightarrow> unit job" where
  "runFullAutomation cfg env =
     andThen (phase ''sync'' (runTool env AutoSync)) (\<lambda>_.
     andThen (phase ''config'' (runAutoConfig env)) (\<lambda>_.
     andThen (phase ''analysis'' (runTool env Analysis)) (\<lambda>_.
     andThen (phase ''repair'' (runTool env AutoRepair)) (\<lambda>_.
     andThen (phase ''fix'' (runTool env AutoFix)) (\<lambda>_.
     andThen (phase ''test'' (runTool env AutoTest)) (\<lambda>_.
     andThen (phase ''comments'' (runTool env AutoComments)) (\<lambda>_.
       if deployPlatform cfg \<noteq> None \<and> deployPlatform cfg \<noteq> Some []
       then phase ''deploy'' (runTool env AutoDeploy) else proceed)))))))"

definition runDevelopmentMode :: "(tool \<Rightarrow> outcome) \<Rightarrow> unit job" where
  "runDevelopmentMode env =
     andThen (runTool env AutoSync) (\<lambda>_.
     andThen (runTool env Analysis) (\<lambda>_.
     andThen (runTool env AutoRepair) (\<lambda>_.
     andThen (runTool env AutoTest) (\<lambda>_.
     andThen (runTool env AutoComments) (\<lambda>_. proceed)))))"

definition runCIMode :: "(tool \<Rightarrow> outcome) \<Rightarrow> unit job" where
  "runCIMode env =
     andThen (phase ''analysis'' (runTool env Analysis)) (\<lambda>_.
     andThen (phase ''repair'' (runTool env AutoRepair)) (\<lambda>_.
     andThen (runTool env AutoTest) (\<lambda>testResult.
     andThen (setPhase ''test'' testResult) (\<lambda>_.
       if \<not> phase_success testResult then throw (Error ''Tests failed in CI mode'')
       else proceed))))"

definition runDeploymentMode :: "(tool \<Rightarrow> outcome) \<Rightarrow> unit job" where
  "runDeploymentMode env =
     andThen (runTool env AutoTest) (\<lambda>testResult.
     andThen (setPhase ''test'' testResult) (\<lambda>_.
       if \<not> phase_success testResult then throw (Error ''Tests must pass before deployment'')
       else phase ''deploy'' (runTool env AutoDeploy)))"

text \<open>
  \<^verbatim>\<open>orchestrate\<close>: the \<^verbatim>\<open>switch\<close> has the four cases below and no default; the
  \<^verbatim>\<open>try\<close>/\<^verbatim>\<open>catch\<close> turns a thrown error into \<^verbatim>\<open>success = false\<close> and prints it.
\<close>

definition orchestrate :: "OrchestratorConfig \<Rightarrow> (tool \<Rightarrow> outcome) \<Rightarrow> Orchestration" where
  "orchestrate cfg env =
     (let body =
        (if mode cfg = ''full'' then runFullAutomation cfg env
         else if mode cfg = ''development'' then runDevelopmentMode env
         else if mode cfg = ''ci'' then runCIMode env
         else if mode cfg = ''deployment'' then runDeploymentMode env
         else proceed)
      in case body \<lparr>phases = [], invoked = []\<rparr> of
           Inr (_, r) \<Rightarrow>
             \<lparr>returned = \<lparr>orchestration_success = True, orchestration_phases = phases r\<rparr>,
              tools_invoked = invoked r, console_error = None\<rparr>
         | Inl (e, r) \<Rightarrow>
             \<lparr>returned = \<lparr>orchestration_success = False, orchestration_phases = phases r\<rparr>,
              tools_invoked = invoked r, console_error = Some e\<rparr>)"

section \<open>Graph notions and scenarios used by the properties\<close>

text \<open>
  \<open>extends xs st st'\<close>: from \<open>st\<close> to \<open>st'\<close> the traversal of \<open>optimizeFlow\<close> has visited
  more ids and has pushed, once each, exactly the steps of the newly visited ids.
\<close>

definition extends :: "FlowStep list \<Rightarrow> string set \<times> FlowStep list \<Rightarrow> string set \<times> FlowStep list \<Rightarrow> bool" where
  "extends xs st st' \<longleftrightarrow>
     fst st \<subseteq> fst st' \<and>
     (\<exists>new. snd st' = snd st @ new \<and>
        step_id ` set new = (fst st' - fst st) \<inter> stepIds xs \<and>
        distinct (map step_id new) \<and>
        (\<forall>s\<in>set new. findStep xs (step_id s) = Some s))"

text \<open>The dependency relation of a flow: a step id and an id its step lists.\<close>

definition dependsOn :: "FlowStep list \<Rightarrow> (string \<times> string) set" where
  "dependsOn xs = {(a, b). \<exists>s\<in>set xs. step_id s = a \<and> b \<in> set (dependencies s)}"

text \<open>Every listed dependency is the id of a step.\<close>

definition fullyReferenced :: "FlowStep list \<Rightarrow> bool" where
  "fullyReferenced xs \<longleftrightarrow> (\<forall>s\<in>set xs. set (dependencies s) \<subseteq> stepIds xs)"

text \<open>Every step of the list comes after the steps its dependencies name.\<close>

definition depsBefore :: "FlowStep list \<Rightarrow> bool" where
  "depsBefore out \<longleftrightarrow>
     (\<forall>i<length out. set (dependencies (out ! i)) \<subseteq> step_id ` set (take i out))"

text \<open>The visited step ids whose step is not pushed yet.\<close>

definition active :: "FlowStep list \<Rightarrow> string set \<times> FlowStep list \<Rightarrow> string set" where
  "active xs st = (fst st \<inter> stepIds xs) - step_id ` set (snd st)"

text \<open>The dependency relation as \<^verbatim>\<open>find\<close> sees it: the first step with an id decides.\<close>

definition firstEdges :: "FlowStep list \<Rightarrow> (string \<times> string) set" where
  "firstEdges xs = {(a, b). \<exists>s. findStep xs a = Some s \<and> b \<in> set (dependencies s)}"

text \<open>
  The visited ids off the current path are closed under dependencies and on no
  cycle.
\<close>

definition cleared :: "FlowStep list \<Rightarrow> string set \<Rightarrow> string list \<Rightarrow> bool" where
  "cleared xs V path \<longleftrightarrow>
     (\<forall>u\<in>V - set path.
        (\<forall>v. (u, v) \<in> firstEdges xs \<longrightarrow> v \<in> V - set path) \<and> (u, u) \<notin> (firstEdges xs)\<^sup>+)"

text \<open>Scenario flows.\<close>

definition cyclicPair :: Flow where
  "cyclicPair = mkFlow [mkStep ''A'' [''B''], mkStep ''B'' [''A'']]"

definition ghostFlow :: Flow where
  "ghostFlow = mkFlow [mkStep ''A'' [''ghost'']]"

definition reversedChain :: Flow where
  "reversedChain =
     mkFlow [mkStep ''test'' [''analyze''], mkStep ''analyze'' [''sync''], mkStep ''sync'' []]"

definition tangled :: Flow where
  "tangled = mkFlow [mkStep ''R'' [''A''], mkStep ''A'' [''B'', ''ghost''], mkStep ''B'' [''A'']]"

text \<open>
  An error of the cycle check: a chain of dependencies \<open>p\<close> followed by an id that is
  already on it.
\<close>

definition namesCycle :: "FlowStep list \<Rightarrow> string \<Rightarrow> bool" where
  "namesCycle xs e \<longleftrightarrow>
     (\<exists>p c. c \<in> set p \<and> successively (\<lambda>a b. (a, b) \<in> firstEdges xs) (p @ [c]) \<and>
            e = circularMessage p c)"

text \<open>Two declarations with the same id.\<close>

definition twins :: FlowConfig where
  "twins =
     \<lparr>cfg_name = ''twins'', cfg_description = [],
      cfg_steps =
        [\<lparr>p_id = Some ''build'', p_name = None, p_type = None, p_action = Some ''compile'',
          p_optional = None, p_dependencies = None, p_config = None\<rparr>,
         \<lparr>p_id = Some ''build'', p_name = None, p_type = None, p_action = Some ''bundle'',
          p_optional = None, p_dependencies = None, p_config = None\<rparr>]\<rparr>"



text \<open>The ids a run has touched: actions called, results and errors recorded.\<close>

definition touched :: "'v RunState \<Rightarrow> string set" where
  "touched st =
     {i. Invoked i \<in> set (trace st)} \<union> fst ` set (results st) \<union> fst ` set (failures st)"

text \<open>
  Workflow steps that declare dependencies and the optional flag; the action of the
  first always rejects, that of the second resolves.
\<close>

definition failing :: "string \<Rightarrow> string list \<Rightarrow> bool \<Rightarrow> string DeclaredStep" where
  "failing sid deps opt =
     \<lparr>wid = sid, wname = sid, action = (\<lambda>_. Rejects 0 (Error ''boom'')),
      parallel = None, condition = None, onSuccess = None, onError = None,
      retries = None, timeout = None, declared_dependencies = deps, declared_optional = opt\<rparr>"

definition passing :: "string \<Rightarrow> string list \<Rightarrow> bool \<Rightarrow> string DeclaredStep" where
  "passing sid deps opt =
     \<lparr>wid = sid, wname = sid, action = (\<lambda>_. Resolves 0 ''ok''),
      parallel = None, condition = None, onSuccess = None, onError = None,
      retries = None, timeout = None, declared_dependencies = deps, declared_optional = opt\<rparr>"

text \<open>A builder holding one workflow, \<open>w\<close>.\<close>

definition workflowOf ::
    "bool \<Rightarrow> string DeclaredStep list
       \<Rightarrow> (string \<times> (string, unit DeclaredStep_ext) Workflow) list" where
  "workflowOf par xs =
     [(''w'', \<lparr>workflow_id = ''workflow-0'', workflow_name = ''w'', wsteps = xs, wparallel = par\<rparr>)]"

text \<open>The event is the call of an action.\<close>

fun isInvoked :: "event \<Rightarrow> bool" where
  "isInvoked (Invoked _) = True"
| "isInvoked _ = False"

text \<open>The synchronous pass calls the action of the step.\<close>

definition launches :: "('v, 'm) WorkflowStep_scheme \<Rightarrow> bool" where
  "launches step \<longleftrightarrow>
     (condition step = None \<or> condition step = Some (Inr True)) \<and> 0 \<le> retriesOf step"

text \<open>The dependencies declared by the steps with a given id.\<close>

definition declaredFor :: "'v DeclaredStep list \<Rightarrow> string \<Rightarrow> string list" where
  "declaredFor xs sid = concat (map declared_dependencies (filter (\<lambda>s. wid s = sid) xs))"

text \<open>
  Every call of an action comes after a call of the action of each declared dependency
  (which it must, if it comes after that action has completed).
\<close>

fun dependenciesFirst :: "(string \<Rightarrow> string list) \<Rightarrow> string list \<Rightarrow> event list \<Rightarrow> bool" where
  "dependenciesFirst deps seen [] = True"
| "dependenciesFirst deps seen (Invoked sid # tr) =
     (list_all (\<lambda>d. d \<in> set seen) (deps sid) \<and> dependenciesFirst deps (sid # seen) tr)"
| "dependenciesFirst deps seen (_ # tr) = dependenciesFirst deps seen tr"

text \<open>The \<^verbatim>\<open>onError\<close> handler of the step, if it has one, never throws.\<close>

definition calm :: "('v, 'm) WorkflowStep_scheme \<Rightarrow> bool" where
  "calm step \<longleftrightarrow> (\<forall>handler e. onError step = Some handler \<longrightarrow> handler e = None)"

text \<open>The ids that have an entry in one of the two maps.\<close>

definition recorded :: "'v RunState \<Rightarrow> string set" where
  "recorded st = fst ` set (results st) \<union> fst ` set (failures st)"

text \<open>
  No callback has rejected, and every step of \<open>A\<close> that its condition let run is
  recorded or in flight.
\<close>

definition accounted ::
    "('v, 'm) WorkflowStep_scheme set \<Rightarrow> ('v, 'm) parallel_run \<Rightarrow> bool" where
  "accounted A = (\<lambda>(st, inflight, rejection).
     rejection = None \<and> fst ` set inflight \<subseteq> A \<and>
     (\<forall>s\<in>A. condition s \<noteq> Some (Inr False) \<longrightarrow>
        wid s \<in> recorded st \<or> s \<in> fst ` set inflight))"

text \<open>
  The same step with other declarations of dependencies and of the optional flag, and
  a parallel run whose steps in flight are declared anew.
\<close>

definition redeclare ::
    "(('v, 'm) DeclaredStep_scheme \<Rightarrow> string list) \<Rightarrow> (('v, 'm) DeclaredStep_scheme \<Rightarrow> bool)
       \<Rightarrow> ('v, 'm) DeclaredStep_scheme \<Rightarrow> ('v, 'm) DeclaredStep_scheme" where
  "redeclare deps opt s = s\<lparr>declared_dependencies := deps s, declared_optional := opt s\<rparr>"

definition redeclared ::
    "(('v, 'm) DeclaredStep_scheme \<Rightarrow> string list) \<Rightarrow> (('v, 'm) DeclaredStep_scheme \<Rightarrow> bool)
       \<Rightarrow> 'v RunState \<times> (('v, 'm) DeclaredStep_scheme \<times> int option) list \<times> js_error option
       \<Rightarrow> 'v RunState \<times> (('v, 'm) DeclaredStep_scheme \<times> int option) list \<times> js_error option" where
  "redeclared deps opt = (\<lambda>(st, inflight, rejection).
     (st, map (\<lambda>(s, a). (redeclare deps opt s, a)) inflight, rejection))"

text \<open>Scenario configurations and tools.\<close>

definition deploymentConfig :: OrchestratorConfig where
  "deploymentConfig =
     \<lparr>target = ''.'', mode = ''deployment'', watch = None, interval = None,
      deployPlatform = None\<rparr>"

definition componentsConfig :: OrchestratorConfig where
  "componentsConfig =
     \<lparr>target = ''.'', mode = ''components'', watch = None, interval = None,
      deployPlatform = None\<rparr>"

definition redTests :: "tool \<Rightarrow> outcome" where
  "redTests t =
     (if t = AutoTest then Returns \<lparr>phase_success = False, phase_data = ''2 failed''\<rparr>
      else Returns \<lparr>phase_success = True, phase_data = []\<rparr>)"

section \<open>Lemmas about the traversals\<close>

lemma extends_refl: "extends xs st st"
  by (simp add: extends_def)

lemma extends_trans:
  assumes "extends xs st1 st2" "extends xs st2 st3"
  shows "extends xs st1 st3"
proof -
  from assms(1) obtain n1 where n1: "fst st1 \<subseteq> fst st2" "snd st2 = snd st1 @ n1"
    "step_id ` set n1 = (fst st2 - fst st1) \<inter> stepIds xs" "distinct (map step_id n1)"
    "\<forall>s\<in>set n1. findStep xs (step_id s) = Some s"
    by (auto simp: extends_def)
  from assms(2) obtain n2 where n2: "fst st2 \<subseteq> fst st3" "snd st3 = snd st2 @ n2"
    "step_id ` set n2 = (fst st3 - fst st2) \<inter> stepIds xs" "distinct (map step_id n2)"
    "\<forall>s\<in>set n2. findStep xs (step_id s) = Some s"
    by (auto simp: extends_def)
  have a: "snd st3 = snd st1 @ (n1 @ n2)" using n1 n2 by simp
  have b: "step_id ` set (n1 @ n2) = (fst st3 - fst st1) \<inter> stepIds xs"
    using n1(1,3) n2(1,3) by (simp add: image_Un) blast
  have "step_id ` set n1 \<inter> step_id ` set n2 = {}"
    using n1(3) n2(3) by blast
  then have c: "distinct (map step_id (n1 @ n2))" using n1(4) n2(4) by simp
  have d: "\<forall>s\<in>set (n1 @ n2). findStep xs (step_id s) = Some s" using n1(5) n2(5) by auto
  show ?thesis unfolding extends_def using n1(1) n2(1) a b c d by blast
qed

lemma distinct_map_imp: "distinct (map f ys) \<Longrightarrow> distinct ys"
  by (simp add: distinct_map)

lemma findStep_id: "findStep xs sid = Some s \<Longrightarrow> step_id s = sid"
  by (auto simp: findStep_def find_Some_iff)

lemma findStep_mem: "findStep xs sid = Some s \<Longrightarrow> s \<in> set xs"
  by (auto simp: findStep_def find_Some_iff)

lemma extends_push:
  assumes ext: "extends xs (insert sid V, acc) (V', acc')"
    and nin: "sid \<notin> V" and f: "findStep xs sid = Some step"
  shows "extends xs (V, acc) (V', acc' @ [step])"
proof -
  from ext obtain new where n: "insert sid V \<subseteq> V'" "acc' = acc @ new"
    "step_id ` set new = (V' - insert sid V) \<inter> stepIds xs" "distinct (map step_id new)"
    "\<forall>s\<in>set new. findStep xs (step_id s) = Some s"
    by (auto simp: extends_def)
  have sid: "step_id step = sid" using f by (rule findStep_id)
  have inids: "sid \<in> stepIds xs" using f by (rule findStep_Some_in)
  have a: "acc' @ [step] = acc @ (new @ [step])" using n(2) by simp
  have b: "step_id ` set (new @ [step]) = (V' - V) \<inter> stepIds xs"
    using n(1,3) sid inids nin by (simp add: image_Un) blast
  have "sid \<notin> step_id ` set new" using n(3) by blast
  then have c: "distinct (map step_id (new @ [step]))" using n(4) sid by simp
  have d: "\<forall>s\<in>set (new @ [step]). findStep xs (step_id s) = Some s"
    using n(5) f sid by auto
  show ?thesis unfolding extends_def using n(1) a b c d by (simp del: set_append map_append)
qed

lemma visit_extends:
  "extends xs st (visit xs sid st) \<and> sid \<in> fst (visit xs sid st)"
  "extends xs st (visitEach xs deps st) \<and> set deps \<subseteq> fst (visitEach xs deps st)"
proof (induction xs sid st and xs deps st rule: visit_visitEach.induct)
  case (1 xs sid visited acc)
  show ?case
  proof (cases "sid \<in> visited")
    case True
    then show ?thesis by (simp add: extends_refl)
  next
    case False
    show ?thesis
    proof (cases "findStep xs sid")
      case None
      then have "sid \<notin> stepIds xs"
        by (auto simp: findStep_def stepIds_def find_None_iff)
      with False None show ?thesis by (auto simp: extends_def)
    next
      case (Some step)
      obtain V' acc' where r: "visitEach xs (dependencies step) (insert sid visited, acc) = (V', acc')"
        by (cases "visitEach xs (dependencies step) (insert sid visited, acc)")
      from 1[OF False Some] r have ext: "extends xs (insert sid visited, acc) (V', acc')" by simp
      then have "sid \<in> V'" by (auto simp: extends_def)
      moreover have "extends xs (visited, acc) (V', acc' @ [step])"
        using ext False Some by (rule extends_push)
      ultimately show ?thesis using False Some r by simp
    qed
  qed
next
  case (2 xs st)
  show ?case by (simp add: extends_refl)
next
  case (3 xs dep deps st)
  have "extends xs st (visitEach xs deps (visit xs dep st))"
    using 3 extends_trans by blast
  moreover have "dep \<in> fst (visitEach xs deps (visit xs dep st))"
    using 3 by (auto simp: extends_def)
  ultimately show ?case using 3 by simp
qed

lemma topologicalOrder_ids:
  "step_id ` set (topologicalOrder xs) = stepIds xs"
  "distinct (map step_id (topologicalOrder xs))"
  "\<forall>s\<in>set (topologicalOrder xs). findStep xs (step_id s) = Some s"
proof -
  let ?r = "visitEach xs (map step_id xs) ({}, [])"
  have e: "extends xs ({}, []) ?r" and v: "set (map step_id xs) \<subseteq> fst ?r"
    using visit_extends(2)[of xs "({}, [])" "map step_id xs"] by auto
  from e obtain new where n: "snd ?r = new" "step_id ` set new = fst ?r \<inter> stepIds xs"
    "distinct (map step_id new)" "\<forall>s\<in>set new. findStep xs (step_id s) = Some s"
    by (auto simp: extends_def)
  show "step_id ` set (topologicalOrder xs) = stepIds xs"
    using n(1,2) v by (auto simp: topologicalOrder_def stepIds_def)
  show "distinct (map step_id (topologicalOrder xs))"
    using n(1,3) by (simp add: topologicalOrder_def)
  show "\<forall>s\<in>set (topologicalOrder xs). findStep xs (step_id s) = Some s"
    using n(1,4) by (simp add: topologicalOrder_def)
qed

lemma topologicalOrder_mset:
  assumes "distinct (map step_id xs)"
  shows "mset (topologicalOrder xs) = mset xs"
proof -
  let ?out = "topologicalOrder xs"
  have d1: "distinct ?out" using topologicalOrder_ids(2)[of xs] by (rule distinct_map_imp)
  have d2: "distinct xs" using assms by (rule distinct_map_imp)
  have sub: "set ?out \<subseteq> set xs"
    using topologicalOrder_ids(3)[of xs] by (auto dest: findStep_mem)
  have inj: "inj_on step_id (set xs)" using assms by (simp add: distinct_map)
  have "step_id ` set ?out = step_id ` set xs"
    using topologicalOrder_ids(1)[of xs] by (simp add: stepIds_def)
  with sub inj have "set ?out = set xs"
    by (metis inj_on_image_eq_iff subset_refl)
  with d1 d2 show ?thesis by (simp add: set_eq_iff_mset_eq_distinct)
qed

lemma depsBefore_snoc:
  "depsBefore (out @ [s]) \<longleftrightarrow> depsBefore out \<and> set (dependencies s) \<subseteq> step_id ` set out"
proof -
  have "depsBefore (out @ [s]) \<longleftrightarrow>
      (\<forall>i<length out. set (dependencies ((out @ [s]) ! i)) \<subseteq> step_id ` set (take i (out @ [s])))
      \<and> set (dependencies ((out @ [s]) ! length out)) \<subseteq> step_id ` set (take (length out) (out @ [s]))"
    by (simp add: depsBefore_def less_Suc_eq all_conj_distrib del: take_append)
  also have "\<dots> \<longleftrightarrow> depsBefore out \<and> set (dependencies s) \<subseteq> step_id ` set out"
    by (simp add: depsBefore_def nth_append)
  finally show ?thesis .
qed

lemma extends_active:
  assumes "extends xs st st'" "step_id ` set (snd st) \<subseteq> fst st"
  shows "active xs st' = active xs st" "step_id ` set (snd st') \<subseteq> fst st'"
proof -
  from assms(1) obtain new where n: "fst st \<subseteq> fst st'" "snd st' = snd st @ new"
    "step_id ` set new = (fst st' - fst st) \<inter> stepIds xs"
    by (auto simp: extends_def)
  show "active xs st' = active xs st"
    unfolding active_def using n assms(2) by (simp add: image_Un) blast
  show "step_id ` set (snd st') \<subseteq> fst st'"
    using n assms(2) by (simp add: image_Un) blast
qed

lemma visit_order:
  assumes acyc: "acyclic (dependsOn xs)" and full: "fullyReferenced xs"
  shows "depsBefore (snd st) \<Longrightarrow> step_id ` set (snd st) \<subseteq> fst st \<Longrightarrow>
           (\<forall>u\<in>active xs st. (sid, u) \<notin> (dependsOn xs)\<^sup>*) \<Longrightarrow>
           depsBefore (snd (visit xs sid st))"
    and "depsBefore (snd st) \<Longrightarrow> step_id ` set (snd st) \<subseteq> fst st \<Longrightarrow>
           (\<forall>d\<in>set deps. \<forall>u\<in>active xs st. (d, u) \<notin> (dependsOn xs)\<^sup>*) \<Longrightarrow>
           depsBefore (snd (visitEach xs deps st))"
  using acyc full
proof (induction xs sid st and xs deps st rule: visit_visitEach.induct)
  case (1 xs sid visited acc)
  let ?E = "dependsOn xs"
  show ?case
  proof (cases "sid \<in> visited")
    case True
    with 1 show ?thesis by simp
  next
    case False
    show ?thesis
    proof (cases "findStep xs sid")
      case None
      with False 1 show ?thesis by simp
    next
      case (Some step)
      let ?st1 = "(insert sid visited, acc)"
      let ?r = "visitEach xs (dependencies step) ?st1"
      have sid: "step_id step = sid" using Some by (rule findStep_id)
      have mem: "step \<in> set xs" using Some by (rule findStep_mem)
      have inids: "sid \<in> stepIds xs" using Some by (rule findStep_Some_in)
      have edge: "\<And>d. d \<in> set (dependencies step) \<Longrightarrow> (sid, d) \<in> ?E"
        using sid mem by (auto simp: dependsOn_def)
      have act1: "active xs ?st1 = insert sid (active xs (visited, acc))"
        using False inids "1.prems"(2) by (auto simp: active_def)
      have pre: "\<forall>d\<in>set (dependencies step). \<forall>u\<in>active xs ?st1. (d, u) \<notin> ?E\<^sup>*"
      proof (intro ballI notI)
        fix d u assume d: "d \<in> set (dependencies step)" and u: "u \<in> active xs ?st1"
          and du: "(d, u) \<in> ?E\<^sup>*"
        show False
        proof (cases "u = sid")
          case True
          with du edge[OF d] have "(sid, sid) \<in> ?E\<^sup>+" by (simp add: rtrancl_into_trancl2)
          with "1.prems"(4) show False by (simp add: acyclic_def)
        next
          case False
          with u act1 have "u \<in> active xs (visited, acc)" by simp
          moreover from du edge[OF d] have "(sid, u) \<in> ?E\<^sup>*"
            by (simp add: converse_rtrancl_into_rtrancl)
          ultimately show False using "1.prems"(3) by blast
        qed
      qed
      have sub1: "step_id ` set (snd ?st1) \<subseteq> fst ?st1" using "1.prems"(2) by auto
      have ord: "depsBefore (snd ?r)"
        using "1.IH"[OF False Some _ sub1 pre "1.prems"(4,5)] "1.prems"(1) by simp
      have ext: "extends xs ?st1 ?r" and vis: "set (dependencies step) \<subseteq> fst ?r"
        using visit_extends(2)[of xs ?st1 "dependencies step"] by auto
      have act: "active xs ?r = active xs ?st1" using ext sub1 by (rule extends_active)
      have "set (dependencies step) \<subseteq> step_id ` set (snd ?r)"
      proof
        fix d assume d: "d \<in> set (dependencies step)"
        then have "d \<in> fst ?r" using vis by blast
        moreover have "d \<in> stepIds xs" using d mem "1.prems"(5) by (auto simp: fullyReferenced_def)
        moreover have "d \<notin> active xs ?r" using pre d act by auto
        ultimately show "d \<in> step_id ` set (snd ?r)" by (simp add: active_def)
      qed
      with ord have "depsBefore (snd ?r @ [step])" by (simp add: depsBefore_snoc)
      then show ?thesis using False Some by (auto split: prod.splits)
    qed
  qed
next
  case (2 xs st)
  then show ?case by simp
next
  case (3 xs dep deps st)
  let ?st1 = "visit xs dep st"
  have ext: "extends xs st ?st1" using visit_extends(1)[of xs st dep] by simp
  have a: "depsBefore (snd ?st1)" using 3 by simp
  have b: "step_id ` set (snd ?st1) \<subseteq> fst ?st1"
    and c: "active xs ?st1 = active xs st"
    using extends_active[OF ext "3.prems"(2)] by simp_all
  have "depsBefore (snd (visitEach xs deps ?st1))"
    using "3.IH"(2)[OF a b _ "3.prems"(4,5)] "3.prems"(3) c by simp
  then show ?case by simp
qed

lemma topologicalOrder_depsBefore:
  assumes "acyclic (dependsOn xs)" "fullyReferenced xs"
  shows "depsBefore (topologicalOrder xs)"
  unfolding topologicalOrder_def
  by (rule visit_order(2)[OF assms]) (simp_all add: depsBefore_def active_def)

lemma check_errors_prefix:
  "\<exists>new. snd (checkDependencies xs sid path st) = snd st @ new"
  "\<exists>new. snd (checkEach xs deps path st) = snd st @ new"
proof (induction xs sid path st and xs deps path st rule: checkDependencies_checkEach.induct)
  case (1 xs sid path visited errs)
  then show ?case by (auto split: option.splits)
next
  case (2 xs path st)
  show ?case by simp
next
  case (3 xs dep deps path st)
  then show ?case by (metis append.assoc checkEach.simps(2))
qed

lemma cleared_closed_reach:
  assumes "cleared xs V path" "u \<in> V - set path" "(u, v) \<in> (firstEdges xs)\<^sup>*"
  shows "v \<in> V - set path"
  using assms(3,2)
proof (induction rule: rtrancl_induct)
  case base
  then show ?case .
next
  case (step y z)
  then have "y \<in> V - set path" by simp
  with assms(1) step(2) show ?case unfolding cleared_def by blast
qed

lemma cleared_leaf:
  assumes c: "cleared xs V path" and n: "findStep xs sid = None"
  shows "cleared xs (insert sid V) path"
proof -
  have noedge: "\<And>v. (sid, v) \<notin> firstEdges xs" using n by (simp add: firstEdges_def)
  have "(sid, sid) \<notin> (firstEdges xs)\<^sup>+"
    using noedge by (meson tranclD)
  with c noedge show ?thesis unfolding cleared_def by blast
qed

lemma cleared_finish:
  assumes c: "cleared xs V' (path @ [sid])"
    and f: "findStep xs sid = Some step"
    and deps: "set (dependencies step) \<subseteq> V' - set (path @ [sid])"
  shows "cleared xs V' path"
  unfolding cleared_def
proof (intro ballI conjI allI impI)
  fix u v assume u: "u \<in> V' - set path" and e: "(u, v) \<in> firstEdges xs"
  show "v \<in> V' - set path"
  proof (cases "u = sid")
    case True
    with e f have "v \<in> set (dependencies step)" by (auto simp: firstEdges_def)
    with deps show ?thesis by auto
  next
    case False
    with u have "u \<in> V' - set (path @ [sid])" by simp
    with c e have "v \<in> V' - set (path @ [sid])" unfolding cleared_def by blast
    then show ?thesis by simp
  qed
next
  fix u assume u: "u \<in> V' - set path"
  show "(u, u) \<notin> (firstEdges xs)\<^sup>+"
  proof (cases "u = sid")
    case False
    with u have "u \<in> V' - set (path @ [sid])" by simp
    with c show ?thesis unfolding cleared_def by blast
  next
    case True
    show ?thesis
    proof
      assume "(u, u) \<in> (firstEdges xs)\<^sup>+"
      with True obtain v where e: "(sid, v) \<in> firstEdges xs" and r: "(v, sid) \<in> (firstEdges xs)\<^sup>*"
        by (meson tranclD)
      from e f have "v \<in> set (dependencies step)" by (auto simp: firstEdges_def)
      with deps have "v \<in> V' - set (path @ [sid])" by auto
      with c have "sid \<in> V' - set (path @ [sid])" using r by (rule cleared_closed_reach)
      then show False by simp
    qed
  qed
qed

lemma check_clears:
  "snd (checkDependencies xs sid path st) = snd st \<Longrightarrow> set path \<subseteq> fst st \<Longrightarrow>
     cleared xs (fst st) path \<Longrightarrow>
     fst st \<subseteq> fst (checkDependencies xs sid path st) \<and>
     cleared xs (fst (checkDependencies xs sid path st)) path \<and>
     sid \<in> fst (checkDependencies xs sid path st) - set path"
  "snd (checkEach xs deps path st) = snd st \<Longrightarrow> set path \<subseteq> fst st \<Longrightarrow>
     cleared xs (fst st) path \<Longrightarrow>
     fst st \<subseteq> fst (checkEach xs deps path st) \<and>
     cleared xs (fst (checkEach xs deps path st)) path \<and>
     set deps \<subseteq> fst (checkEach xs deps path st) - set path"
proof (induction xs sid path st and xs deps path st rule: checkDependencies_checkEach.induct)
  case (1 xs sid path visited errs)
  show ?case
  proof (cases "sid \<in> set path")
    case True
    with "1.prems"(1) show ?thesis by simp
  next
    case notpath: False
    show ?thesis
    proof (cases "sid \<in> visited")
      case True
      with notpath "1.prems" show ?thesis by simp
    next
      case False
      show ?thesis
      proof (cases "findStep xs sid")
        case None
        with notpath False "1.prems" show ?thesis by (auto intro: cleared_leaf)
      next
        case (Some step)
        let ?st1 = "(insert sid visited, errs)"
        let ?r = "checkEach xs (dependencies step) (path @ [sid]) ?st1"
        have res: "checkDependencies xs sid path (visited, errs) = ?r"
          using notpath False Some by simp
        have a: "snd ?r = snd ?st1" using "1.prems"(1) res by simp
        have b: "set (path @ [sid]) \<subseteq> fst ?st1" using "1.prems"(2) by auto
        have eq: "insert sid visited - set (path @ [sid]) = visited - set path"
          using False by auto
        have c: "cleared xs (fst ?st1) (path @ [sid])"
          using "1.prems"(3) unfolding cleared_def fst_conv eq .
        from "1.IH"[OF notpath False Some a b c]
        have i: "insert sid visited \<subseteq> fst ?r" "cleared xs (fst ?r) (path @ [sid])"
          "set (dependencies step) \<subseteq> fst ?r - set (path @ [sid])" by simp_all
        have "cleared xs (fst ?r) path" using i(2) Some i(3) by (rule cleared_finish)
        moreover have "visited \<subseteq> fst ?r" "sid \<in> fst ?r - set path"
          using i(1) notpath by auto
        ultimately show ?thesis unfolding res fst_conv by blast
      qed
    qed
  qed
next
  case (2 xs path st)
  then show ?case by simp
next
  case (3 xs dep deps path st)
  let ?st1 = "checkDependencies xs dep path st"
  obtain n1 where n1: "snd ?st1 = snd st @ n1" using check_errors_prefix(1) by blast
  obtain n2 where n2: "snd (checkEach xs deps path ?st1) = snd ?st1 @ n2"
    using check_errors_prefix(2) by blast
  from "3.prems"(1) n1 n2 have e1: "snd ?st1 = snd st" by simp
  from "3.IH"(1)[OF e1 "3.prems"(2,3)]
  have i1: "fst st \<subseteq> fst ?st1" "cleared xs (fst ?st1) path" "dep \<in> fst ?st1 - set path"
    by simp_all
  have e2: "snd (checkEach xs deps path ?st1) = snd ?st1" using "3.prems"(1) e1 by simp
  have p2: "set path \<subseteq> fst ?st1" using "3.prems"(2) i1(1) by blast
  from "3.IH"(2)[OF e2 p2 i1(2)]
  have i2: "fst ?st1 \<subseteq> fst (checkEach xs deps path ?st1)"
    "cleared xs (fst (checkEach xs deps path ?st1)) path"
    "set deps \<subseteq> fst (checkEach xs deps path ?st1) - set path" by simp_all
  show ?case using i1 i2 by auto
qed

lemma no_circular_errors_acyclic:
  assumes "circularErrors xs = []"
  shows "acyclic (firstEdges xs)"
proof -
  let ?r = "checkEach xs (map step_id xs) [] ({}, [])"
  have "snd ?r = snd ({}::string set, []::string list)" using assms by (simp add: circularErrors_def)
  from check_clears(2)[OF this]
  have c: "cleared xs (fst ?r) []" and v: "set (map step_id xs) \<subseteq> fst ?r"
    by (simp_all add: cleared_def)
  show ?thesis unfolding acyclic_def
  proof (intro allI notI)
    fix u assume cyc: "(u, u) \<in> (firstEdges xs)\<^sup>+"
    then obtain w where "(u, w) \<in> firstEdges xs" by (meson tranclD)
    then have "u \<in> stepIds xs" by (auto simp: firstEdges_def dest: findStep_Some_in)
    with v have "u \<in> fst ?r - set []" by (auto simp: stepIds_def)
    with c cyc show False unfolding cleared_def by blast
  qed
qed

lemma findStep_distinct:
  assumes "distinct (map step_id xs)"
  shows "findStep xs a = Some s \<longleftrightarrow> s \<in> set xs \<and> step_id s = a"
proof
  assume "findStep xs a = Some s"
  then show "s \<in> set xs \<and> step_id s = a" by (auto dest: findStep_mem findStep_id)
next
  assume r: "s \<in> set xs \<and> step_id s = a"
  then obtain t where t: "findStep xs a = Some t"
    by (cases "findStep xs a") (auto simp: findStep_def find_None_iff)
  then have "t \<in> set xs" "step_id t = a" by (auto dest: findStep_mem findStep_id)
  with r assms have "t = s" by (auto simp: distinct_map dest: inj_onD)
  with t show "findStep xs a = Some s" by simp
qed

lemma firstEdges_distinct:
  "distinct (map step_id xs) \<Longrightarrow> firstEdges xs = dependsOn xs"
  by (auto simp: firstEdges_def dependsOn_def findStep_distinct)

section \<open>Properties\<close>

lemmas flow_eval =
  validateFlow_def circularErrors_def missingDependencies_def mkFlow_def mkStep_def
  findStep_def circularMessage_def missingMessage_def optimizeFlow_def topologicalOrder_def

subsection \<open>Missing dependencies (C6)\<close>

lemma missing_reported:
  assumes "s \<in> set xs" "d \<in> set (dependencies s)" "d \<notin> stepIds xs"
  shows "missingMessage (step_id s) d \<in> set (missingDependencies xs)"
proof -
  have "findStep xs d = None"
    using assms(3) by (auto simp: findStep_def stepIds_def find_None_iff)
  with assms(1,2) show ?thesis by (auto simp: missingDependencies_def)
qed

text \<open>
  \<^bold>\<open>C6\<close>, as the code has it. Whenever a step of a flow lists a dependency id that no
  step of the flow carries, \<open>validateFlow\<close> answers \<open>valid = False\<close> and its errors
  contain the message \<^verbatim>\<open>Step '<id>' has missing dependency: <dep>\<close> for that step and that
  id; nothing is assumed about cycles. For the flow with the single step \<open>A\<close> depending
  on \<open>ghost\<close> the result is exactly that one message. The message starts with
  \<^verbatim>\<open>Step\<close>, not with \<^verbatim>\<open>node\<close>.
\<close>

theorem validateFlow_missing_dependency:
  "(\<forall>s d. s \<in> set (steps flow) \<and> d \<in> set (dependencies s) \<and> d \<notin> stepIds (steps flow) \<longrightarrow>
       \<not> valid (validateFlow flow) \<and>
       missingMessage (step_id s) d \<in> set (errors (validateFlow flow)))
   \<and> validateFlow ghostFlow =
       \<lparr>valid = False,
        errors = [''Step '' @ [CHR 0x27] @ ''A'' @ [CHR 0x27] @ '' has missing dependency: ghost'']\<rparr>"
proof (intro conjI allI impI)
  fix s d
  assume a: "s \<in> set (steps flow) \<and> d \<in> set (dependencies s) \<and> d \<notin> stepIds (steps flow)"
  then have m: "missingMessage (step_id s) d \<in> set (missingDependencies (steps flow))"
    by (auto intro: missing_reported)
  then show "missingMessage (step_id s) d \<in> set (errors (validateFlow flow))"
    by (simp add: validateFlow_def Let_def)
  from m have "missingDependencies (steps flow) \<noteq> []" by auto
  then show "\<not> valid (validateFlow flow)" by (simp add: validateFlow_def Let_def)
next
  show "validateFlow ghostFlow =
       \<lparr>valid = False,
        errors = [''Step '' @ [CHR 0x27] @ ''A'' @ [CHR 0x27] @ '' has missing dependency: ghost'']\<rparr>"
    by (simp add: ghostFlow_def flow_eval)
qed

text \<open>
  C6 at a flow that has a cycle and a missing dependency at once: both are reported.
\<close>

theorem validateFlow_missing_dependency_witness:
  "mkStep ''A'' [''B'', ''ghost''] \<in> set (steps tangled) \<and>
   ''ghost'' \<in> set (dependencies (mkStep ''A'' [''B'', ''ghost''])) \<and>
   ''ghost'' \<notin> stepIds (steps tangled) \<and>
   \<not> valid (validateFlow tangled) \<and>
   missingMessage ''A'' ''ghost'' \<in> set (errors (validateFlow tangled)) \<and>
   errors (validateFlow tangled) =
     [''Circular dependency detected: R -> A -> B -> A'', missingMessage ''A'' ''ghost'']"
proof -
  have h: "mkStep ''A'' [''B'', ''ghost''] \<in> set (steps tangled) \<and>
      ''ghost'' \<in> set (dependencies (mkStep ''A'' [''B'', ''ghost''])) \<and>
      ''ghost'' \<notin> stepIds (steps tangled)"
    by (simp add: tangled_def mkFlow_def mkStep_def stepIds_def)
  have e: "errors (validateFlow tangled) =
     [''Circular dependency detected: R -> A -> B -> A'', missingMessage ''A'' ''ghost'']"
    by (simp add: tangled_def flow_eval)
  have "step_id (mkStep ''A'' [''B'', ''ghost'']) = ''A''" by (simp add: mkStep_def)
  with validateFlow_missing_dependency[of tangled] h e show ?thesis by metis
qed

text \<open>
  C6 as stated fails on its own example: the result for \<open>A\<close> depending on \<open>ghost\<close> is not
  the record with the message \<^verbatim>\<open>node 'A' has missing dependency: ghost\<close>.
\<close>

theorem validateFlow_missing_dependency_counterexample:
  "validateFlow ghostFlow \<noteq>
     \<lparr>valid = False,
      errors = [''node '' @ [CHR 0x27] @ ''A'' @ [CHR 0x27] @ '' has missing dependency: ghost'']\<rparr>"
  by (simp add: ghostFlow_def flow_eval)

subsection \<open>Cycles (C4)\<close>

lemma namesCycleI:
  "c \<in> set p \<Longrightarrow> successively (\<lambda>a b. (a, b) \<in> firstEdges xs) (p @ [c]) \<Longrightarrow>
     namesCycle xs (circularMessage p c)"
  unfolding namesCycle_def by blast

lemma check_errors_name_cycles:
  "\<forall>e\<in>set (snd st). namesCycle xs e \<Longrightarrow>
     successively (\<lambda>a b. (a, b) \<in> firstEdges xs) (path @ [sid]) \<Longrightarrow>
     \<forall>e\<in>set (snd (checkDependencies xs sid path st)). namesCycle xs e"
  "\<forall>e\<in>set (snd st). namesCycle xs e \<Longrightarrow>
     successively (\<lambda>a b. (a, b) \<in> firstEdges xs) path \<Longrightarrow>
     (path \<noteq> [] \<longrightarrow> (\<forall>d\<in>set deps. (last path, d) \<in> firstEdges xs)) \<Longrightarrow>
     \<forall>e\<in>set (snd (checkEach xs deps path st)). namesCycle xs e"
proof (induction xs sid path st and xs deps path st rule: checkDependencies_checkEach.induct)
  case (1 xs sid path visited errs)
  show ?case
  proof (cases "sid \<in> set path")
    case True
    with "1.prems" show ?thesis by (auto intro: namesCycleI)
  next
    case notpath: False
    show ?thesis
    proof (cases "sid \<in> visited")
      case True
      with notpath "1.prems" show ?thesis by simp
    next
      case False
      show ?thesis
      proof (cases "findStep xs sid")
        case None
        with notpath False "1.prems" show ?thesis by simp
      next
        case (Some step)
        have edges: "\<forall>d\<in>set (dependencies step). (last (path @ [sid]), d) \<in> firstEdges xs"
          using Some by (auto simp: firstEdges_def)
        have "\<forall>e\<in>set (snd (insert sid visited, errs)). namesCycle xs e"
          using "1.prems"(1) by simp
        from "1.IH"[OF notpath False Some this "1.prems"(2)] edges
        show ?thesis using notpath False Some by simp
      qed
    qed
  qed
next
  case (2 xs path st)
  then show ?case by simp
next
  case (3 xs dep deps path st)
  have w: "successively (\<lambda>a b. (a, b) \<in> firstEdges xs) (path @ [dep])"
    using "3.prems"(2,3) by (auto simp: successively_append_iff)
  have "\<forall>e\<in>set (snd (checkDependencies xs dep path st)). namesCycle xs e"
    using "3.IH"(1)[OF "3.prems"(1) w] .
  from "3.IH"(2)[OF this "3.prems"(2)] "3.prems"(3) show ?case by simp
qed

lemma circularErrors_name_cycles: "\<forall>e\<in>set (circularErrors xs). namesCycle xs e"
  unfolding circularErrors_def by (rule check_errors_name_cycles(2)) simp_all

lemma cyclic_flow_has_circular_error:
  assumes "distinct (map step_id xs)" "\<not> acyclic (dependsOn xs)"
  shows "\<exists>e\<in>set (circularErrors xs). namesCycle xs e"
proof -
  have "circularErrors xs \<noteq> []"
  proof
    assume "circularErrors xs = []"
    then have "acyclic (firstEdges xs)" by (rule no_circular_errors_acyclic)
    with assms show False by (simp add: firstEdges_distinct)
  qed
  then obtain e where "e \<in> set (circularErrors xs)" by (cases "circularErrors xs") auto
  with circularErrors_name_cycles show ?thesis by blast
qed

lemma execute_only_refuses_unknown:
  "execute workflows wfname sched lag = Inl e \<Longrightarrow> map_of workflows wfname = None \<and> e = notFound wfname"
  by (auto simp: execute_def Let_def split: option.splits if_splits prod.splits)

text \<open>
  \<^bold>\<open>C4\<close>, as the code has it. For every flow with pairwise distinct step ids whose
  dependency relation has a cycle, \<open>validateFlow\<close> answers \<open>valid = False\<close> and reports
  an error \<^verbatim>\<open>Circular dependency detected: p1 -> ... -> pk -> c\<close> in which every id depends
  on the next one and the last id \<open>c\<close> already occurs among \<open>p1 ... pk\<close>: the message names
  a path that runs into a cycle and closes it. For \<open>A\<close> depending on \<open>B\<close> and \<open>B\<close> on \<open>A\<close>
  the error list is exactly \<^verbatim>\<open>Circular dependency detected: A -> B -> A\<close>. The workflow
  engine does not validate: the only error \<open>execute\<close> throws is the one for an unknown
  workflow name.
\<close>

theorem validateFlow_reports_cycle:
  "(distinct (map step_id (steps flow)) \<and> \<not> acyclic (dependsOn (steps flow)) \<longrightarrow>
      \<not> valid (validateFlow flow) \<and>
      (\<exists>p c. c \<in> set p \<and>
         successively (\<lambda>a b. (a, b) \<in> dependsOn (steps flow)) (p @ [c]) \<and>
         circularMessage p c \<in> set (errors (validateFlow flow))))
   \<and> validateFlow cyclicPair =
        \<lparr>valid = False, errors = [''Circular dependency detected: A -> B -> A'']\<rparr>
   \<and> (\<forall>e. execute workflows wfname sched lag = Inl e \<longrightarrow>
         map_of workflows wfname = None \<and> e = notFound wfname)"
proof (intro conjI allI impI)
  assume a: "distinct (map step_id (steps flow)) \<and> \<not> acyclic (dependsOn (steps flow))"
  then obtain e where e: "e \<in> set (circularErrors (steps flow))" "namesCycle (steps flow) e"
    using cyclic_flow_has_circular_error by blast
  from e(1) show "\<not> valid (validateFlow flow)"
    by (auto simp: validateFlow_def Let_def)
  from e(2) obtain p c where pc: "c \<in> set p"
    "successively (\<lambda>a b. (a, b) \<in> firstEdges (steps flow)) (p @ [c])" "e = circularMessage p c"
    unfolding namesCycle_def by blast
  have "firstEdges (steps flow) = dependsOn (steps flow)" using a by (simp add: firstEdges_distinct)
  with pc e(1) show "\<exists>p c. c \<in> set p \<and>
         successively (\<lambda>a b. (a, b) \<in> dependsOn (steps flow)) (p @ [c]) \<and>
         circularMessage p c \<in> set (errors (validateFlow flow))"
    by (auto simp: validateFlow_def Let_def)
next
  show "validateFlow cyclicPair =
        \<lparr>valid = False, errors = [''Circular dependency detected: A -> B -> A'']\<rparr>"
    by (simp add: cyclicPair_def flow_eval)
next
  fix e assume "execute workflows wfname sched lag = Inl e"
  then show "map_of workflows wfname = None" "e = notFound wfname"
    by (auto dest: execute_only_refuses_unknown)
qed

lemma cyclicPair_cyclic: "\<not> acyclic (dependsOn (steps cyclicPair))"
proof -
  have "(''A'', ''B'') \<in> dependsOn (steps cyclicPair)" "(''B'', ''A'') \<in> dependsOn (steps cyclicPair)"
    by (auto simp: dependsOn_def cyclicPair_def mkFlow_def mkStep_def)
  then have "(''A'', ''A'') \<in> (dependsOn (steps cyclicPair))\<^sup>+" by (rule trancl_into_trancl2[OF _ r_into_trancl])
  then show ?thesis by (auto simp: acyclic_def)
qed

text \<open>
  C4 at the two-step cycle, and \<open>execute\<close> at a name no workflow has.
\<close>

theorem validateFlow_reports_cycle_witness:
  "distinct (map step_id (steps cyclicPair)) \<and> \<not> acyclic (dependsOn (steps cyclicPair)) \<and>
   \<not> valid (validateFlow cyclicPair) \<and>
   (\<exists>p c. c \<in> set p \<and>
      successively (\<lambda>a b. (a, b) \<in> dependsOn (steps cyclicPair)) (p @ [c]) \<and>
      circularMessage p c \<in> set (errors (validateFlow cyclicPair))) \<and>
   execute ([]::(string \<times> (unit, unit) Workflow) list) ''build'' [] 0 = Inl (notFound ''build'')"
proof -
  have d: "distinct (map step_id (steps cyclicPair))"
    by (simp add: cyclicPair_def mkFlow_def mkStep_def)
  have x: "execute ([]::(string \<times> (unit, unit) Workflow) list) ''build'' [] 0 = Inl (notFound ''build'')"
    by (simp add: execute_def)
  from validateFlow_reports_cycle[of cyclicPair "[]::(string \<times> (unit, unit) Workflow) list" "''build''" "[]" 0]
    d cyclicPair_cyclic x
  show ?thesis by blast
qed

text \<open>
  C4 as stated fails on its own example: the error text is not
  \<^verbatim>\<open>circular dependency: A -> B -> A\<close>.
\<close>

theorem validateFlow_reports_cycle_counterexample:
  "validateFlow cyclicPair \<noteq>
     \<lparr>valid = False, errors = [''circular dependency: A -> B -> A'']\<rparr>"
  by (simp add: cyclicPair_def flow_eval)

subsection \<open>Topological order (C5, C10)\<close>

lemma depsBefore_nth:
  assumes "depsBefore out" "i < length out" "d \<in> set (dependencies (out ! i))"
  shows "\<exists>j<i. step_id (out ! j) = d"
proof -
  from assms have "d \<in> step_id ` set (take i out)" unfolding depsBefore_def by blast
  then obtain s where s: "s \<in> set (take i out)" "step_id s = d" by blast
  then obtain j where j: "j < length (take i out)" "take i out ! j = s"
    by (auto simp: in_set_conv_nth)
  then have "j < i" "out ! j = s" by simp_all
  with s(2) show ?thesis by blast
qed

text \<open>
  \<^bold>\<open>C5\<close>. For every flow with pairwise distinct step ids that is acyclic and fully
  referenced, the steps of \<open>optimizeFlow\<close> are a permutation of the steps of the flow, and
  every dependency of the step at a position is the id of a step at an earlier position.
\<close>

theorem optimizeFlow_topological:
  assumes "distinct (map step_id (steps flow))"
    and "acyclic (dependsOn (steps flow))"
    and "fullyReferenced (steps flow)"
  shows "mset (steps (optimizeFlow flow)) = mset (steps flow) \<and>
         (\<forall>i<length (steps (optimizeFlow flow)).
            \<forall>d\<in>set (dependencies (steps (optimizeFlow flow) ! i)).
              \<exists>j<i. step_id (steps (optimizeFlow flow) ! j) = d)"
proof -
  have "depsBefore (topologicalOrder (steps flow))"
    using assms(2,3) by (rule topologicalOrder_depsBefore)
  then have "\<forall>i<length (topologicalOrder (steps flow)).
            \<forall>d\<in>set (dependencies (topologicalOrder (steps flow) ! i)).
              \<exists>j<i. step_id (topologicalOrder (steps flow) ! j) = d"
    by (blast dest: depsBefore_nth)
  with topologicalOrder_mset[OF assms(1)] show ?thesis by (simp add: optimizeFlow_def)
qed

lemma reversedChain_acyclic: "acyclic (dependsOn (steps reversedChain))"
proof -
  have d: "distinct (map step_id (steps reversedChain))"
    by (simp add: reversedChain_def mkFlow_def mkStep_def)
  have "circularErrors (steps reversedChain) = []"
    by (simp add: reversedChain_def flow_eval)
  then have "acyclic (firstEdges (steps reversedChain))" by (rule no_circular_errors_acyclic)
  with d show ?thesis by (simp add: firstEdges_distinct)
qed

text \<open>
  C5 at a chain declared in reverse order: \<open>test\<close> needs \<open>analyze\<close>, which needs \<open>sync\<close>.
\<close>

theorem optimizeFlow_topological_witness:
  "distinct (map step_id (steps reversedChain)) \<and> acyclic (dependsOn (steps reversedChain)) \<and>
   fullyReferenced (steps reversedChain) \<and>
   mset (steps (optimizeFlow reversedChain)) = mset (steps reversedChain) \<and>
   map step_id (steps (optimizeFlow reversedChain)) = [''sync'', ''analyze'', ''test'']"
proof -
  have d: "distinct (map step_id (steps reversedChain))"
    by (simp add: reversedChain_def mkFlow_def mkStep_def)
  have f: "fullyReferenced (steps reversedChain)"
    by (simp add: fullyReferenced_def stepIds_def reversedChain_def mkFlow_def mkStep_def)
  have m: "map step_id (steps (optimizeFlow reversedChain)) = [''sync'', ''analyze'', ''test'']"
    by (simp add: reversedChain_def flow_eval)
  have "mset (steps (optimizeFlow reversedChain)) = mset (steps reversedChain)"
    using optimizeFlow_topological[OF d reversedChain_acyclic f] by (rule conjunct1)
  with d reversedChain_acyclic f m show ?thesis by (intro conjI)
qed

text \<open>
  \<^bold>\<open>C10\<close>. For every flow with pairwise distinct step ids, cyclic or not, fully
  referenced or not, the steps of \<open>optimizeFlow\<close> are a permutation of the steps of the
  flow.
\<close>

theorem optimizeFlow_permutation:
  assumes "distinct (map step_id (steps flow))"
  shows "mset (steps (optimizeFlow flow)) = mset (steps flow)"
  using topologicalOrder_mset[OF assms] by (simp add: optimizeFlow_def)

text \<open>
  C10 at a flow that \<open>validateFlow\<close> rejects (a cycle between \<open>A\<close> and \<open>B\<close>, and the missing
  id \<open>ghost\<close>).
\<close>

theorem optimizeFlow_permutation_witness:
  "distinct (map step_id (steps tangled)) \<and>
   \<not> valid (validateFlow tangled) \<and>
   mset (steps (optimizeFlow tangled)) = mset (steps tangled) \<and>
   map step_id (steps (optimizeFlow tangled)) = [''B'', ''A'', ''R'']"
proof -
  have d: "distinct (map step_id (steps tangled))"
    by (simp add: tangled_def mkFlow_def mkStep_def)
  have v: "\<not> valid (validateFlow tangled)" by (simp add: tangled_def flow_eval)
  have m: "map step_id (steps (optimizeFlow tangled)) = [''B'', ''A'', ''R'']"
    by (simp add: tangled_def flow_eval)
  from optimizeFlow_permutation[OF d] d v m show ?thesis by (intro conjI)
qed

subsection \<open>Repeated ids (C7)\<close>

text \<open>
  \<^bold>\<open>C7\<close>, as the code has it. \<open>buildFlow\<close> always returns a flow: it turns the step
  declarations into steps one for one, in order, each with the id it declares (or
  \<^verbatim>\<open>step-<index>\<close> when it declares none), whether or not an id repeats; and \<open>addStep\<close>
  appends the step to the workflow it names, whatever its id.
\<close>

theorem buildFlow_keeps_every_step:
  "length (steps (buildFlow cfg now clock)) = length (cfg_steps cfg) \<and>
   (\<forall>i<length (cfg_steps cfg).
      steps (buildFlow cfg now clock) ! i = buildStep i (cfg_steps cfg ! i) \<and>
      step_id (steps (buildFlow cfg now clock) ! i) =
        orString (p_id (cfg_steps cfg ! i)) (''step-'' @ digits i)) \<and>
   (\<forall>w. map_of workflows wfname = Some w \<longrightarrow>
      map_of (addStep workflows wfname step) wfname = Some (w\<lparr>wsteps := wsteps w @ [step]\<rparr>))"
proof (intro conjI allI impI)
  show "length (steps (buildFlow cfg now clock)) = length (cfg_steps cfg)"
    by (simp add: buildFlow_def)
next
  fix i assume i: "i < length (cfg_steps cfg)"
  then show b: "steps (buildFlow cfg now clock) ! i = buildStep i (cfg_steps cfg ! i)"
    by (simp add: buildFlow_def nth_enumerate_eq)
  then show "step_id (steps (buildFlow cfg now clock) ! i) =
        orString (p_id (cfg_steps cfg ! i)) (''step-'' @ digits i)"
    by (simp add: buildStep_def)
next
  fix w assume "map_of workflows wfname = Some w"
  then show "map_of (addStep workflows wfname step) wfname = Some (w\<lparr>wsteps := wsteps w @ [step]\<rparr>)"
    by (simp add: addStep_def update_conv')
qed

text \<open>
  C7 as stated fails: two declarations with the id \<open>build\<close> give a flow with two steps
  \<open>build\<close>, the first and the second both kept.
\<close>

theorem buildFlow_keeps_every_step_counterexample:
  "map step_id (steps (buildFlow twins 0 0)) = [''build'', ''build''] \<and>
   map step_action (steps (buildFlow twins 0 0)) = [''compile'', ''bundle'']"
  by (simp add: buildFlow_def twins_def buildStep_def orString_def)

text \<open>
  C7 at two declarations with the same id, and at a workflow that gets the same step
  twice.
\<close>

theorem buildFlow_keeps_every_step_witness:
  "(1::nat) < length (cfg_steps twins) \<and>
   length (steps (buildFlow twins 0 0)) = 2 \<and>
   step_id (steps (buildFlow twins 0 0) ! 1) = ''build'' \<and>
   step_id (steps (buildFlow twins 0 0) ! 0) = ''build'' \<and>
   map_of (addStep (addStep (workflowOf False []) ''w'' (passing ''lint'' [] False))
             ''w'' (passing ''lint'' [] False)) ''w''
     = Some \<lparr>workflow_id = ''workflow-0'', workflow_name = ''w'',
             wsteps = [passing ''lint'' [] False, passing ''lint'' [] False],
             wparallel = False\<rparr>"
proof -
  have l: "(1::nat) < length (cfg_steps twins)" "(0::nat) < length (cfg_steps twins)"
    by (simp_all add: twins_def)
  have o: "orString (p_id (cfg_steps twins ! 1)) (''step-'' @ digits 1) = ''build''"
    "orString (p_id (cfg_steps twins ! 0)) (''step-'' @ digits 0) = ''build''"
    by (simp_all add: twins_def orString_def)
  note t = buildFlow_keeps_every_step[of twins 0 0]
  have n: "length (steps (buildFlow twins 0 0)) = 2"
    using t[THEN conjunct1] by (simp add: twins_def)
  have i1: "step_id (steps (buildFlow twins 0 0) ! 1) = ''build''"
    using t[THEN conjunct2, THEN conjunct1, rule_format, OF l(1), THEN conjunct2]
    unfolding o(1) .
  have i0: "step_id (steps (buildFlow twins 0 0) ! 0) = ''build''"
    using t[THEN conjunct2, THEN conjunct1, rule_format, OF l(2), THEN conjunct2]
    unfolding o(2) .
  let ?w1 = "\<lparr>workflow_id = ''workflow-0'', workflow_name = ''w'',
             wsteps = [passing ''lint'' [] False], wparallel = False\<rparr>"
  have a1: "map_of (addStep (workflowOf False []) ''w'' (passing ''lint'' [] False)) ''w'' = Some ?w1"
    by (simp add: addStep_def workflowOf_def)
  have "map_of (addStep (addStep (workflowOf False []) ''w'' (passing ''lint'' [] False))
             ''w'' (passing ''lint'' [] False)) ''w''
     = Some (?w1\<lparr>wsteps := wsteps ?w1 @ [passing ''lint'' [] False]\<rparr>)"
    using buildFlow_keeps_every_step[THEN conjunct2, THEN conjunct2, rule_format, OF a1] .
  then have a2: "map_of (addStep (addStep (workflowOf False []) ''w'' (passing ''lint'' [] False))
             ''w'' (passing ''lint'' [] False)) ''w''
     = Some \<lparr>workflow_id = ''workflow-0'', workflow_name = ''w'',
             wsteps = [passing ''lint'' [] False, passing ''lint'' [] False],
             wparallel = False\<rparr>"
    by simp
  from l(1) n i1 i0 a2 show ?thesis by (intro conjI)
qed

subsection \<open>Retries (C3)\<close>





subsection \<open>Sequential policy (C2)\<close>

lemma failStep_facts:
  "fst (failStep step err st) \<noteq> Continue"
  "failures (snd (failStep step err st)) \<noteq> []"
  by (auto simp: failStep_def Let_def update_nonempty split: option.splits)

lemma runBody_failing:
  assumes "condition step = None \<or> condition step = Some (Inr True)"
    and "fst (executeStep step) = Inl err"
  shows "runBody step st = failStep step err (st\<lparr>trace := trace st @ snd (executeStep step)\<rparr>)"
proof -
  obtain r tr where e: "executeStep step = (r, tr)" by (cases "executeStep step")
  with assms(2) have "r = Inl err" by simp
  with e assms(1) show ?thesis by (auto simp: runBody_def)
qed

lemma runBody_stop_failures:
  "fst (runBody step st) \<noteq> Continue \<Longrightarrow> failures (snd (runBody step st)) \<noteq> []"
  by (auto simp: runBody_def Let_def failStep_facts(2)
      split: option.splits sum.splits bool.splits prod.splits)

lemma executeSequential_drops_rest:
  assumes "\<And>st. fst (runBody step st) \<noteq> Continue"
  shows "executeSequential (pre @ step # rest) st = executeSequential (pre @ [step]) st"
proof (induction pre arbitrary: st)
  case Nil
  obtain c st' where r: "runBody step st = (c, st')" by (cases "runBody step st")
  with assms[of st] have "c \<noteq> Continue" by simp
  with r show ?case by (cases c) simp_all
next
  case (Cons a pre)
  obtain c st' where r: "runBody a st = (c, st')" by (cases "runBody a st")
  with Cons show ?case by (cases c) simp_all
qed

lemma executeSequential_failed:
  assumes "\<And>st. fst (runBody step st) \<noteq> Continue"
  shows "failures (snd (executeSequential (pre @ step # rest) st)) \<noteq> []"
proof (induction pre arbitrary: st)
  case Nil
  obtain c st' where r: "runBody step st = (c, st')" by (cases "runBody step st")
  with assms[of st] runBody_stop_failures[of step st] have "c \<noteq> Continue" "failures st' \<noteq> []"
    by simp_all
  with r show ?case by (cases c) simp_all
next
  case (Cons a pre)
  obtain c st' where r: "runBody a st = (c, st')" by (cases "runBody a st")
  show ?case
  proof (cases "c = Continue")
    case True
    with r Cons show ?thesis by simp
  next
    case False
    with r runBody_stop_failures[of a st] have "failures st' \<noteq> []" by simp
    with r False show ?thesis by (cases c) simp_all
  qed
qed

lemma attemptLoop_invokes_own:
  "Invoked i \<in> set (snd (attemptLoop step a)) \<Longrightarrow> i = wid step"
proof (induction step a rule: attemptLoop.induct)
  case (1 step attempt)
  from "1.prems" show ?case
    by (subst (asm) attemptLoop.simps)
      (auto split: if_splits sum.splits prod.splits dest: "1.IH")
qed

lemma failStep_touched:
  "touched (snd (failStep step err st)) \<subseteq> insert (wid step) (touched st)"
  by (auto simp: touched_def failStep_def Let_def dom_update split: option.splits)

lemma runBody_touched:
  "touched (snd (runBody step st)) \<subseteq> insert (wid step) (touched st)"
proof -
  obtain r tr where e: "executeStep step = (r, tr)" by (cases "executeStep step")
  then have own: "\<And>i. Invoked i \<in> set tr \<Longrightarrow> i = wid step"
    using attemptLoop_invokes_own[of _ step 0] by (simp add: executeStep_def)
  have f: "touched (snd (failStep step err st')) \<subseteq> insert (wid step) (touched st)"
    if "touched st' \<subseteq> insert (wid step) (touched st)" for st' err
    using failStep_touched[of step err st'] that by blast
  have a: "touched (st\<lparr>trace := trace st @ tr\<rparr>) \<subseteq> insert (wid step) (touched st)"
    using own by (auto simp: touched_def)
  have b: "touched (st\<lparr>results := AList.update (wid step) v (results st),
                      trace := trace st @ tr\<rparr>) \<subseteq> insert (wid step) (touched st)" for v
    using own by (auto simp: touched_def dom_update)
  have c: "touched (st\<lparr>results := AList.update (wid step) v (results st),
                      trace := trace st @ tr @ [SuccessCallback (wid step)]\<rparr>)
             \<subseteq> insert (wid step) (touched st)" for v
    using own by (auto simp: touched_def dom_update)
  have enabled: "touched (snd (case executeStep step of
             (Inl err, tr) \<Rightarrow> failStep step err (st\<lparr>trace := trace st @ tr\<rparr>)
           | (Inr v, tr) \<Rightarrow>
               (let st1 = st\<lparr>results := AList.update (wid step) v (results st),
                              trace := trace st @ tr\<rparr>
                in case onSuccess step of
                     None \<Rightarrow> (Continue, st1)
                   | Some handler \<Rightarrow>
                       (let st2 = st1\<lparr>trace := trace st1 @ [SuccessCallback (wid step)]\<rparr>
                        in case handler v of
                             None \<Rightarrow> (Continue, st2)
                           | Some thrown \<Rightarrow> failStep step thrown st2))))
          \<subseteq> insert (wid step) (touched st)"
  proof (cases r)
    case (Inl err)
    with e show ?thesis using f[OF a] by simp
  next
    case (Inr v)
    show ?thesis
    proof (cases "onSuccess step")
      case None
      with e Inr show ?thesis using b by simp
    next
      case (Some handler)
      show ?thesis
      proof (cases "handler v")
        case None
        with e Inr Some show ?thesis using c by simp
      next
        case (Some thrown)
        with e Inr \<open>onSuccess step = Some handler\<close> show ?thesis using f[OF c] by simp
      qed
    qed
  qed
  show ?thesis
  proof (cases "condition step")
    case None
    with enabled show ?thesis by (simp add: runBody_def)
  next
    case (Some cnd)
    show ?thesis
    proof (cases cnd)
      case (Inl thrown)
      with Some show ?thesis using failStep_touched[of step thrown st] by (simp add: runBody_def)
    next
      case (Inr b)
      with Some enabled show ?thesis by (cases b) (auto simp: runBody_def)
    qed
  qed
qed

lemma executeSequential_touched:
  "touched (snd (executeSequential xs st)) \<subseteq> touched st \<union> wid ` set xs"
proof (induction xs arbitrary: st)
  case Nil
  show ?case by simp
next
  case (Cons a xs)
  obtain c st' where r: "runBody a st = (c, st')" by (cases "runBody a st")
  then have t: "touched st' \<subseteq> insert (wid a) (touched st)"
    using runBody_touched[of a st] by simp
  show ?case
  proof (cases c)
    case Continue
    with r Cons[of st'] t show ?thesis by auto
  next
    case Break
    with r t show ?thesis by auto
  next
    case (Raise e)
    with r t show ?thesis by auto
  qed
qed

text \<open>
  \<^bold>\<open>C2\<close>, as the code has it. Under the sequential policy, when a step whose condition
  lets it run fails on its last attempt, the run has \<open>success = False\<close>, and its result and
  everything observed are those of the workflow cut off after that step: the action of
  a later step (with an id of its own) is never called, and the step appears neither in
  the results nor in the errors. The engine knows no optional steps and no skipped
  status.
\<close>

theorem executeSequential_halts_on_failure:
  assumes "map_of workflows wfname = Some w" and "\<not> wparallel w"
    and "wsteps w = pre @ step # rest"
    and "condition step = None \<or> condition step = Some (Inr True)"
    and "fst (executeStep step) = Inl err"
  shows "\<exists>res tr. execute workflows wfname sched lag = Inr (Completed res tr) \<and> \<not> success res \<and>
           execute (AList.update wfname (w\<lparr>wsteps := pre @ [step]\<rparr>) workflows) wfname sched lag
             = Inr (Completed res tr) \<and>
           (\<forall>r\<in>set rest. wid r \<notin> wid ` set (pre @ [step]) \<longrightarrow>
              Invoked (wid r) \<notin> set tr \<and> wid r \<notin> fst ` set (wresults res) \<and>
              wid r \<notin> fst ` set (werrors res))"
proof -
  let ?st0 = "\<lparr>results = [], failures = [], trace = []\<rparr> :: 'a RunState"
  have stop: "\<And>st. fst (runBody step st) \<noteq> Continue"
    using runBody_failing[OF assms(4,5)] failStep_facts(1) by metis
  have same: "executeSequential (pre @ step # rest) ?st0 = executeSequential (pre @ [step]) ?st0"
    using stop by (rule executeSequential_drops_rest)
  have failed: "failures (snd (executeSequential (pre @ step # rest) ?st0)) \<noteq> []"
    using stop by (rule executeSequential_failed)
  obtain thrown st where r: "executeSequential (pre @ step # rest) ?st0 = (thrown, st)"
    by (cases "executeSequential (pre @ step # rest) ?st0")
  let ?res = "\<lparr>success = (failures st = []), wresults = results st, werrors = failures st\<rparr>"
  let ?tr = "trace st @ (case thrown of None \<Rightarrow> [] | Some e \<Rightarrow> [ConsoleError e])"
  have 1: "execute workflows wfname sched lag = Inr (Completed ?res ?tr)"
    using assms(1,2,3) r by (simp add: execute_def)
  have 2: "\<not> success ?res" using failed r by simp
  have 3: "execute (AList.update wfname (w\<lparr>wsteps := pre @ [step]\<rparr>) workflows) wfname sched lag
             = Inr (Completed ?res ?tr)"
    using assms(2) r same by (simp add: execute_def update_conv')
  have "touched st \<subseteq> touched ?st0 \<union> wid ` set (pre @ [step])"
    using executeSequential_touched[of "pre @ [step]" ?st0] r same by simp
  then have t: "touched st \<subseteq> wid ` set (pre @ [step])" by (simp add: touched_def)
  have 4: "\<forall>r\<in>set rest. wid r \<notin> wid ` set (pre @ [step]) \<longrightarrow>
      Invoked (wid r) \<notin> set ?tr \<and> wid r \<notin> fst ` set (wresults ?res) \<and>
      wid r \<notin> fst ` set (werrors ?res)"
  proof (intro ballI impI)
    fix r assume "r \<in> set rest" and n: "wid r \<notin> wid ` set (pre @ [step])"
    with t have "wid r \<notin> touched st" by blast
    then show "Invoked (wid r) \<notin> set ?tr \<and> wid r \<notin> fst ` set (wresults ?res) \<and>
      wid r \<notin> fst ` set (werrors ?res)"
      by (auto simp: touched_def split: option.splits)
  qed
  from 1 2 3 4 show ?thesis by blast
qed

text \<open>
  C2 as stated fails: the failure of a step declared optional halts the run (the action
  of \<open>B\<close> is never called), and the result holds nothing about \<open>B\<close>, no skipped mark
  either.
\<close>

theorem executeSequential_halts_on_failure_counterexample:
  "declared_optional (failing ''A'' [] True) \<and>
   execute (workflowOf False [failing ''A'' [] True, passing ''B'' [] False]) ''w'' [] 0 =
     Inr (Completed \<lparr>success = False, wresults = [], werrors = [(''A'', Error ''boom'')]\<rparr>
            [Invoked ''A''])"
  by (simp add: execute_def workflowOf_def failing_def passing_def runBody_def executeStep_def
      attemptLoop.simps retriesOf_def timeoutOf_def executeWithTimeout_def timerDelay_def failStep_def)

text \<open>
  C2 at a workflow of three steps whose second step always fails.
\<close>

theorem executeSequential_halts_on_failure_witness:
  "map_of (workflowOf False [passing ''S'' [] False, failing ''A'' [] False, passing ''B'' [] False])
      ''w'' \<noteq> None \<and>
   condition (failing ''A'' [] False) = None \<and>
   fst (executeStep (failing ''A'' [] False)) = Inl (Error ''boom'') \<and>
   execute (workflowOf False [passing ''S'' [] False, failing ''A'' [] False, passing ''B'' [] False]) ''w'' [] 0
     = Inr (Completed \<lparr>success = False, wresults = [(''S'', Some ''ok'')],
                        werrors = [(''A'', Error ''boom'')]\<rparr>
              [Invoked ''S'', Invoked ''A'']) \<and>
   execute (workflowOf False [passing ''S'' [] False, failing ''A'' [] False]) ''w'' [] 0
     = execute (workflowOf False [passing ''S'' [] False, failing ''A'' [] False, passing ''B'' [] False]) ''w'' [] 0"
proof -
  let ?w = "\<lparr>workflow_id = ''workflow-0'', workflow_name = ''w'',
             wsteps = [passing ''S'' [] False, failing ''A'' [] False, passing ''B'' [] False],
             wparallel = False\<rparr>"
  have m: "map_of (workflowOf False [passing ''S'' [] False, failing ''A'' [] False, passing ''B'' [] False]) ''w''
      = Some ?w"
    by (simp add: workflowOf_def)
  have p: "\<not> wparallel ?w" by simp
  have s: "wsteps ?w = [passing ''S'' [] False] @ failing ''A'' [] False # [passing ''B'' [] False]"
    by simp
  have c: "condition (failing ''A'' [] False) = None \<or> condition (failing ''A'' [] False) = Some (Inr True)"
    by (simp add: failing_def)
  have f: "fst (executeStep (failing ''A'' [] False)) = Inl (Error ''boom'')"
    by (simp add: failing_def executeStep_def attemptLoop.simps retriesOf_def timeoutOf_def
        executeWithTimeout_def)
  have u: "AList.update ''w'' (?w\<lparr>wsteps := [passing ''S'' [] False] @ [failing ''A'' [] False]\<rparr>)
       (workflowOf False [passing ''S'' [] False, failing ''A'' [] False, passing ''B'' [] False])
     = workflowOf False [passing ''S'' [] False, failing ''A'' [] False]"
    by (simp add: workflowOf_def)
  have x: "execute (workflowOf False [passing ''S'' [] False, failing ''A'' [] False, passing ''B'' [] False]) ''w'' [] 0
     = Inr (Completed \<lparr>success = False, wresults = [(''S'', Some ''ok'')],
                        werrors = [(''A'', Error ''boom'')]\<rparr>
              [Invoked ''S'', Invoked ''A''])"
    by (simp add: execute_def workflowOf_def failing_def passing_def runBody_def executeStep_def
      attemptLoop.simps retriesOf_def timeoutOf_def executeWithTimeout_def timerDelay_def failStep_def)
  from executeSequential_halts_on_failure[OF m p s c f, of "[]" 0]
  have "execute (workflowOf False [passing ''S'' [] False, failing ''A'' [] False]) ''w'' [] 0
     = execute (workflowOf False [passing ''S'' [] False, failing ''A'' [] False, passing ''B'' [] False]) ''w'' [] 0"
    unfolding u by auto
  with m f x show ?thesis by (simp add: failing_def)
qed

subsection \<open>Parallel policy (C1)\<close>

lemma failStep_trace: "\<exists>more. trace (snd (failStep step err st)) = trace st @ more"
  by (auto simp: failStep_def Let_def split: option.splits)

lemma failStep_no_call:
  "filter isInvoked (trace (snd (failStep step err st))) = filter isInvoked (trace st)"
  "results (snd (failStep step err st)) = results st"
  by (auto simp: failStep_def Let_def split: option.splits)

lemma launch_calls:
  "filter isInvoked (trace (fst (launch step S))) =
     filter isInvoked (trace (fst S)) @ (if launches step then [Invoked (wid step)] else [])"
  "results (fst (launch step S)) = results (fst S)"
proof -
  obtain st inflight rej where S: "S = (st, inflight, rej)" by (cases S)
  show "filter isInvoked (trace (fst (launch step S))) =
     filter isInvoked (trace (fst S)) @ (if launches step then [Invoked (wid step)] else [])"
    using failStep_no_call(1)[of step _ st]
    by (auto simp: S launch_def launches_def split: option.splits sum.splits bool.splits prod.splits)
      (metis snd_conv)+
  show "results (fst (launch step S)) = results (fst S)"
    using failStep_no_call(2)[of step _ st]
    by (auto simp: S launch_def split: option.splits sum.splits bool.splits prod.splits)
      (metis snd_conv)+
qed

lemma fold_launch_calls:
  "filter isInvoked (trace (fst (fold launch xs S))) =
     filter isInvoked (trace (fst S)) @ map (\<lambda>s. Invoked (wid s)) (filter launches xs)"
  "results (fst (fold launch xs S)) = results (fst S)"
  by (induction xs arbitrary: S) (simp_all add: launch_calls)



lemma succeedStep_trace: "\<exists>more. trace (snd (succeedStep step v st)) = trace st @ more"
proof -
  have "\<exists>more. trace (snd (failStep step err st')) = trace st @ more"
    if "\<exists>more. trace st' = trace st @ more" for err st'
    using failStep_trace[of step err st'] that by auto
  then show ?thesis
    by (auto simp: succeedStep_def Let_def split: option.splits)
qed

lemma settle_trace:
  "\<exists>more. trace (fst (settle i S)) = trace (fst S) @ more"
proof -
  obtain st inflight rej where S: "S = (st, inflight, rej)" by (cases S)
  obtain step attempt where x: "inflight ! i = (step, attempt)" by (cases "inflight ! i")
  have a: "\<exists>more. trace st' = trace st @ more" if "succeedStep step v st = (how, st')" for v how st'
    using succeedStep_trace[of step v st] that by simp
  have b: "\<exists>more. trace st' = trace st @ more" if "failStep step e st = (how, st')" for e how st'
    using failStep_trace[of step e st] that by simp
  show ?thesis
    using a b by (auto simp: S x settle_def Let_def split: option.splits sum.splits prod.splits)
qed

lemma settleAll_unfold:
  assumes "\<not> (inflight = [] \<or> (rejection \<noteq> None \<and> lag = 0))"
  shows "settleAll sched lag (st, inflight, rejection) =
     settleAll (tl sched) (if rejection = None then lag else lag - 1)
       (settle ((case sched of [] \<Rightarrow> 0 | c # _ \<Rightarrow> c) mod length inflight)
          (st, inflight, rejection))"
  by (subst settleAll.simps) (simp only: assms if_False)

lemma settleAll_done:
  assumes "inflight = [] \<or> (rejection \<noteq> None \<and> lag = 0)"
  shows "settleAll sched lag (st, inflight, rejection) = (st, inflight, rejection)"
  by (subst settleAll.simps) (simp only: assms if_True)

lemma settleAll_invariant:
  assumes "\<And>i S. P S \<Longrightarrow> i < length (fst (snd S)) \<Longrightarrow> P (settle i S)"
  shows "P S \<Longrightarrow> P (settleAll sched lag S)"
proof (induction sched lag S rule: settleAll.induct)
  case (1 sched lag st inflight rejection)
  show ?case
  proof (cases "inflight = [] \<or> (rejection \<noteq> None \<and> lag = 0)")
    case True
    with "1.prems" show ?thesis by (simp only: settleAll_done)
  next
    case False
    then have "(case sched of [] \<Rightarrow> 0 | c # _ \<Rightarrow> c) mod length inflight
                 < length (fst (snd (st, inflight, rejection)))"
      by simp
    with "1.prems" have "P (settle ((case sched of [] \<Rightarrow> 0 | c # _ \<Rightarrow> c) mod length inflight)
        (st, inflight, rejection))"
      by (rule assms)
    then show ?thesis using "1.IH"[OF False] by (simp only: settleAll_unfold[OF False])
  qed
qed

lemma settleAll_stops:
  "settleAll sched lag S = (st, inflight, rejection) \<Longrightarrow> inflight = [] \<or> rejection \<noteq> None"
proof (induction sched lag S rule: settleAll.induct)
  case (1 sched lag st0 inflight0 rejection0)
  show ?case
  proof (cases "inflight0 = [] \<or> (rejection0 \<noteq> None \<and> lag = 0)")
    case True
    with "1.prems" show ?thesis by (auto simp only: settleAll_done)
  next
    case False
    from "1.prems" show ?thesis
      unfolding settleAll_unfold[OF False] by (rule "1.IH"[OF False])
  qed
qed

lemma executeParallel_starts_with_launches:
  fixes xs :: "('v, 'm) WorkflowStep_scheme list"
  shows "\<exists>more. trace (fst (executeParallel xs sched lag st)) = trace (fst (launchAll xs st)) @ more"
proof -
  have "\<exists>more. trace (fst (settleAll sched lag (launchAll xs st)))
          = trace (fst (launchAll xs st)) @ more"
  proof (rule settleAll_invariant
      [where P = "\<lambda>S :: ('v, 'm) parallel_run.
                    \<exists>more. trace (fst S) = trace (fst (launchAll xs st)) @ more"])
    fix i and S :: "('v, 'm) parallel_run"
    assume "\<exists>more. trace (fst S) = trace (fst (launchAll xs st)) @ more"
    then show "\<exists>more. trace (fst (settle i S)) = trace (fst (launchAll xs st)) @ more"
      using settle_trace[of i S] by auto
  next
    show "\<exists>more. trace (fst (launchAll xs st)) = trace (fst (launchAll xs st)) @ more" by simp
  qed
  then show ?thesis by (simp add: executeParallel_def)
qed


lemma failStep_calm:
  assumes "calm step"
  shows "fst (failStep step err st) = Break"
    and "recorded (snd (failStep step err st)) = insert (wid step) (recorded st)"
  using assms
  by (auto simp: failStep_def calm_def recorded_def Let_def dom_update split: option.splits)

lemma succeedStep_calm:
  assumes "calm step"
  shows "fst (succeedStep step v st) \<noteq> Raise e"
    and "recorded (snd (succeedStep step v st)) = insert (wid step) (recorded st)"
proof -
  have r: "recorded (st'\<lparr>trace := t\<rparr>) = recorded st'" for st' :: "'a RunState" and t
    by (simp add: recorded_def)
  have u: "recorded (st\<lparr>results := AList.update (wid step) v (results st)\<rparr>)
      = insert (wid step) (recorded st)"
    by (auto simp: recorded_def dom_update)
  show "fst (succeedStep step v st) \<noteq> Raise e"
    using failStep_calm(1)[OF assms]
    by (auto simp: succeedStep_def Let_def split: option.splits)
  show "recorded (snd (succeedStep step v st)) = insert (wid step) (recorded st)"
    using failStep_calm(2)[OF assms] r u
    by (auto simp: succeedStep_def Let_def split: option.splits)
qed

lemma absorb_None: "\<forall>e. how \<noteq> Raise e \<Longrightarrow> absorb how rejection = rejection"
  by (cases how) (simp_all add: absorb_def)


lemma set_without:
  assumes "i < length xs"
  shows "set xs = insert (xs ! i) (set (take i xs @ drop (Suc i) xs))"
proof -
  have "set xs = set (take i xs @ xs ! i # drop (Suc i) xs)"
    using id_take_nth_drop[OF assms] by simp
  then show ?thesis by simp
qed

lemma accounted_finish:
  assumes "accounted A (st, inflight, None)" and "i < length inflight"
    and "inflight ! i = (step, a)"
    and "recorded st' = insert (wid step) (recorded st)"
  shows "accounted A (st', take i inflight @ drop (Suc i) inflight, None)"
proof -
  let ?others = "take i inflight @ drop (Suc i) inflight"
  have s: "set inflight = insert (step, a) (set ?others)"
    using set_without[OF assms(2)] assms(3) by simp
  from assms(1) have sub: "fst ` set inflight \<subseteq> A"
    and all: "\<forall>s\<in>A. condition s \<noteq> Some (Inr False) \<longrightarrow>
        wid s \<in> recorded st \<or> s \<in> fst ` set inflight"
    by (simp_all add: accounted_def)
  have "fst ` set ?others \<subseteq> A" using sub s by auto
  moreover have "\<forall>s\<in>A. condition s \<noteq> Some (Inr False) \<longrightarrow>
        wid s \<in> recorded st' \<or> s \<in> fst ` set ?others"
  proof (intro ballI impI)
    fix t assume "t \<in> A" "condition t \<noteq> Some (Inr False)"
    with all have "wid t \<in> recorded st \<or> t \<in> fst ` set inflight" by blast
    then show "wid t \<in> recorded st' \<or> t \<in> fst ` set ?others"
      unfolding s assms(4) by auto
  qed
  ultimately show ?thesis by (simp add: accounted_def)
qed

lemma accounted_retry:
  assumes "accounted A (st, inflight, None)" and "i < length inflight"
    and "inflight ! i = (step, a)"
    and "recorded st' = recorded st"
  shows "accounted A (st', inflight[i := (step, a')], None)"
proof -
  have "fst ` set (inflight[i := (step, a')]) = fst ` set inflight"
  proof -
    have "map fst (inflight[i := (step, a')]) = (map fst inflight)[i := step]"
      by (simp add: map_update)
    also have "\<dots> = map fst inflight"
      using assms(2,3) by (simp add: list_update_same_conv)
    finally show ?thesis by (metis set_map)
  qed
  with assms(1,4) show ?thesis by (simp add: accounted_def)
qed

lemma launch_accounted:
  assumes "accounted A S" and "calm step"
  shows "accounted (insert step A) (launch step S)"
proof -
  obtain st inflight rej where S: "S = (st, inflight, rej)" by (cases S)
  with assms(1) have rej: "rej = None" and sub: "fst ` set inflight \<subseteq> A"
    and all: "\<forall>s\<in>A. condition s \<noteq> Some (Inr False) \<longrightarrow>
        wid s \<in> recorded st \<or> s \<in> fst ` set inflight"
    by (simp_all add: accounted_def)
  have tr: "recorded (st\<lparr>trace := t\<rparr>) = recorded st" for t by (simp add: recorded_def)
  show ?thesis
  proof (cases "condition step")
    case None
    with rej sub all tr show ?thesis by (auto simp: S launch_def accounted_def)
  next
    case (Some c)
    show ?thesis
    proof (cases c)
      case (Inl thrown)
      obtain how st' where f: "failStep step thrown st = (how, st')"
        by (cases "failStep step thrown st")
      with failStep_calm[OF assms(2), of thrown st]
      have "how = Break" "recorded st' = insert (wid step) (recorded st)" by simp_all
      with Some Inl f rej sub all show ?thesis
        by (auto simp: S launch_def accounted_def absorb_def)
    next
      case (Inr b)
      with Some rej sub all tr show ?thesis
        by (cases b) (auto simp: S launch_def accounted_def)
    qed
  qed
qed

lemma fold_launch_accounted:
  "\<forall>s\<in>set xs. calm s \<Longrightarrow> accounted A S \<Longrightarrow> accounted (A \<union> set xs) (fold launch xs S)"
proof (induction xs arbitrary: A S)
  case Nil
  then show ?case by simp
next
  case (Cons x xs)
  then have "accounted (insert x A) (launch x S)" by (simp add: launch_accounted)
  moreover have "\<forall>s\<in>set xs. calm s" using Cons.prems(1) by simp
  ultimately have "accounted (insert x A \<union> set xs) (fold launch xs (launch x S))"
    by (rule Cons.IH[rotated])
  then show ?case by simp
qed

lemma settle_accounted:
  assumes calm: "\<forall>s\<in>A. calm s" and acc: "accounted A S" and i: "i < length (fst (snd S))"
  shows "accounted A (settle i S)"
proof -
  obtain st inflight rej where S: "S = (st, inflight, rej)" by (cases S)
  with acc have rej: "rej = None" and sub: "fst ` set inflight \<subseteq> A"
    by (simp_all add: accounted_def)
  from i S have i': "i < length inflight" by simp
  obtain step attempt where x: "inflight ! i = (step, attempt)" by (cases "inflight ! i")
  with i' sub have "step \<in> A" by (metis fst_conv image_eqI nth_mem subsetD)
  with calm have c: "calm step" by blast
  from acc S rej have a0: "accounted A (st, inflight, None)" by simp
  have fin: "accounted A (st', take i inflight @ drop (Suc i) inflight, absorb how None)"
    if "recorded st' = insert (wid step) (recorded st)" "\<forall>e. how \<noteq> Raise e" for st' how
    using accounted_finish[OF a0 i' x that(1)] absorb_None[OF that(2)] by simp
  have ok: "accounted A (st', take i inflight @ drop (Suc i) inflight, absorb how None)"
    if "succeedStep step v st = (how, st')" for v how st'
    using fin[of st' how] succeedStep_calm[OF c, of v st] that by simp
  have ko: "accounted A (st', take i inflight @ drop (Suc i) inflight, absorb how None)"
    if "failStep step e st = (how, st')" for e how st'
    using fin[of st' how] failStep_calm[OF c, of e st] that by simp
  have tr: "recorded (st\<lparr>trace := t\<rparr>) = recorded st" for t by (simp add: recorded_def)
  have re: "accounted A (st\<lparr>trace := t\<rparr>, inflight[i := (step, a')], None)" for t a'
    using accounted_retry[OF a0 i' x tr] .
  show ?thesis
    using ok ko re
    by (auto simp: S rej x settle_def Let_def split: option.splits sum.splits prod.splits)
qed

lemma executeParallel_joins:
  fixes xs :: "('v, 'm) WorkflowStep_scheme list"
  assumes "\<forall>s\<in>set xs. calm s"
    and "executeParallel xs sched lag st0 = (st, inflight, rejection)"
  shows "rejection = None \<and> inflight = [] \<and>
         (\<forall>s\<in>set xs. condition s \<noteq> Some (Inr False) \<longrightarrow> wid s \<in> recorded st)"
proof -
  have "accounted ({} \<union> set xs) (fold launch xs (st0, [], None))"
    using assms(1) by (rule fold_launch_accounted) (simp add: accounted_def)
  then have "accounted (set xs) (launchAll xs st0)" by (simp add: launchAll_def)
  then have "accounted (set xs) (settleAll sched lag (launchAll xs st0))"
    by (rule settleAll_invariant[where P = "accounted (set xs)", rotated])
      (rule settle_accounted[OF assms(1)])
  with assms(2) have a: "accounted (set xs) (st, inflight, rejection)"
    by (simp add: executeParallel_def)
  then have r: "rejection = None" by (simp add: accounted_def)
  from assms(2) have "inflight = [] \<or> rejection \<noteq> None"
    unfolding executeParallel_def by (rule settleAll_stops)
  with r have e: "inflight = []" by simp
  from a r e show ?thesis by (auto simp: accounted_def)
qed



lemma failStep_redeclare: "failStep (redeclare deps opt s) err st = failStep s err st"
  by (simp add: failStep_def redeclare_def Let_def split: option.splits)

lemma succeedStep_redeclare: "succeedStep (redeclare deps opt s) v st = succeedStep s v st"
  using failStep_redeclare[of deps opt s]
  by (simp add: succeedStep_def redeclare_def Let_def split: option.splits)

lemma launch_redeclare:
  "launch (redeclare deps opt s) (redeclared deps opt S) = redeclared deps opt (launch s S)"
proof -
  obtain st inflight rej where S: "S = (st, inflight, rej)" by (cases S)
  have sel: "condition (redeclare deps opt s) = condition s"
    "retriesOf (redeclare deps opt s) = retriesOf s" "wid (redeclare deps opt s) = wid s"
    by (simp_all add: redeclare_def retriesOf_def)
  show ?thesis
    unfolding S launch_def redeclared_def sel failStep_redeclare
    by (simp split: option.splits sum.splits bool.splits prod.splits)
qed

lemma launchAll_redeclare:
  "fold launch (map (redeclare deps opt) xs) (redeclared deps opt S)
     = redeclared deps opt (fold launch xs S)"
  by (induction xs arbitrary: S) (simp_all add: launch_redeclare)

lemma settle_redeclare:
  assumes "i < length (fst (snd S))"
  shows "settle i (redeclared deps opt S) = redeclared deps opt (settle i S)"
proof -
  obtain st inflight rej where S: "S = (st, inflight, rej)" by (cases S)
  from assms S have i: "i < length inflight" by simp
  obtain s a where x: "inflight ! i = (s, a)" by (cases "inflight ! i")
  let ?f = "\<lambda>(s, a). (redeclare deps opt s, a)"
  have n: "map ?f inflight ! i = (redeclare deps opt s, a)" using i x by simp
  have sel: "action (redeclare deps opt s) = action s"
    "timeoutOf (redeclare deps opt s) = timeoutOf s"
    "retriesOf (redeclare deps opt s) = retriesOf s" "wid (redeclare deps opt s) = wid s"
    "wname (redeclare deps opt s) = wname s"
    by (simp_all add: redeclare_def retriesOf_def timeoutOf_def)
  have u: "(map ?f inflight)[i := (redeclare deps opt s, b)] = map ?f (inflight[i := (s, b)])" for b
    by (simp add: map_update)
  have d: "take i (map ?f inflight) @ drop (Suc i) (map ?f inflight)
      = map ?f (take i inflight @ drop (Suc i) inflight)"
    by (simp add: take_map drop_map)
  show ?thesis
    unfolding S redeclared_def settle_def prod.case n x Let_def d sel u
      failStep_redeclare succeedStep_redeclare
    by (simp split: option.splits sum.splits prod.splits)
qed

lemma settleAll_redeclare:
  "settleAll sched lag (redeclared deps opt S) = redeclared deps opt (settleAll sched lag S)"
proof (induction sched lag S rule: settleAll.induct)
  case (1 sched lag st inflight rejection)
  let ?f = "\<lambda>(s, a). (redeclare deps opt s, a)"
  have r: "redeclared deps opt (st, inflight, rejection) = (st, map ?f inflight, rejection)"
    by (simp add: redeclared_def)
  show ?case
  proof (cases "inflight = [] \<or> (rejection \<noteq> None \<and> lag = 0)")
    case True
    then have "map ?f inflight = [] \<or> (rejection \<noteq> None \<and> lag = 0)" by simp
    then show ?thesis using True unfolding r by (simp only: settleAll_done r)
  next
    case False
    then have F: "\<not> (map ?f inflight = [] \<or> (rejection \<noteq> None \<and> lag = 0))" by simp
    let ?i = "(case sched of [] \<Rightarrow> 0 | c # _ \<Rightarrow> c) mod length inflight"
    have "?i < length (fst (snd (st, inflight, rejection)))" using False by simp
    then have s: "settle ?i (redeclared deps opt (st, inflight, rejection))
        = redeclared deps opt (settle ?i (st, inflight, rejection))"
      by (rule settle_redeclare)
    show ?thesis
      unfolding r settleAll_unfold[OF F] settleAll_unfold[OF False]
      using "1.IH"[OF False] s by (simp add: r)
  qed
qed

lemma executeParallel_redeclare:
  "executeParallel (map (redeclare deps opt) xs) sched lag st
     = redeclared deps opt (executeParallel xs sched lag st)"
proof -
  have "(st, [], None) = redeclared deps opt (st, [], None)" by (simp add: redeclared_def)
  then have "launchAll (map (redeclare deps opt) xs) st = redeclared deps opt (launchAll xs st)"
    unfolding launchAll_def using launchAll_redeclare[of deps opt xs "(st, [], None)"] by simp
  then show ?thesis by (simp add: executeParallel_def settleAll_redeclare)
qed

text \<open>
  \<^bold>\<open>C1\<close>, as the code has it. Under the parallel policy, whatever the order in which the
  actions settle: \<open>execute\<close> returns a result; what is observed starts with one pass
  over the steps in declaration order, which calls the action of every step whose
  condition is absent or true (and whose retry count is not negative) and at whose end
  no result has been recorded; when no \<^verbatim>\<open>onError\<close> handler throws, \<open>execute\<close> returns
  only when every step that its condition let run has an entry in the results or in
  the errors: one join for the whole workflow, no layers; and other declarations of
  dependencies or of optional steps on the step objects change neither the result nor
  what is observed.
\<close>

theorem execute_parallel_launches_all_then_joins:
  fixes w :: "('v, 'm DeclaredStep_ext) Workflow"
  assumes "map_of workflows wfname = Some w" and "wparallel w"
  shows "\<exists>res tr more.
     execute workflows wfname sched lag = Inr (Completed res tr) \<and>
     tr = trace (fst (launchAll (wsteps w) \<lparr>results = [], failures = [], trace = []\<rparr>)) @ more \<and>
     filter isInvoked (trace (fst (launchAll (wsteps w) \<lparr>results = [], failures = [], trace = []\<rparr>)))
       = map (\<lambda>s. Invoked (wid s)) (filter launches (wsteps w)) \<and>
     results (fst (launchAll (wsteps w) \<lparr>results = [], failures = [], trace = []\<rparr>)) = [] \<and>
     ((\<forall>s\<in>set (wsteps w). \<forall>handler e. onError s = Some handler \<longrightarrow> handler e = None) \<longrightarrow>
        (\<forall>s\<in>set (wsteps w). condition s \<noteq> Some (Inr False) \<longrightarrow>
           wid s \<in> fst ` set (wresults res) \<union> fst ` set (werrors res))) \<and>
     execute (AList.update wfname (w\<lparr>wsteps := map (redeclare deps opt) (wsteps w)\<rparr>) workflows)
        wfname sched lag = Inr (Completed res tr)"
proof -
  let ?st0 = "\<lparr>results = [], failures = [], trace = []\<rparr> :: 'v RunState"
  let ?xs = "wsteps w"
  obtain st inflight rejection where r: "executeParallel ?xs sched lag ?st0 = (st, inflight, rejection)"
    by (cases "executeParallel ?xs sched lag ?st0")
  let ?res = "\<lparr>success = (failures st = []), wresults = results st, werrors = failures st\<rparr>"
  let ?tail = "case rejection of None \<Rightarrow> [] | Some e \<Rightarrow> [ConsoleError e]"
  have 1: "execute workflows wfname sched lag = Inr (Completed ?res (trace st @ ?tail))"
    using assms r by (simp add: execute_def)
  obtain more where m: "trace st = trace (fst (launchAll ?xs ?st0)) @ more"
    using executeParallel_starts_with_launches[of ?xs sched lag ?st0] r by auto
  then have 2: "trace st @ ?tail = trace (fst (launchAll ?xs ?st0)) @ (more @ ?tail)" by simp
  have 3: "filter isInvoked (trace (fst (launchAll ?xs ?st0)))
       = map (\<lambda>s. Invoked (wid s)) (filter launches ?xs)"
    and 4: "results (fst (launchAll ?xs ?st0)) = []"
    by (simp_all add: launchAll_def fold_launch_calls)
  have 5: "(\<forall>s\<in>set ?xs. \<forall>handler e. onError s = Some handler \<longrightarrow> handler e = None) \<longrightarrow>
        (\<forall>s\<in>set ?xs. condition s \<noteq> Some (Inr False) \<longrightarrow>
           wid s \<in> fst ` set (wresults ?res) \<union> fst ` set (werrors ?res))"
  proof
    assume "\<forall>s\<in>set ?xs. \<forall>handler e. onError s = Some handler \<longrightarrow> handler e = None"
    then have "\<forall>s\<in>set ?xs. calm s" by (simp add: calm_def)
    from executeParallel_joins[OF this r]
    show "\<forall>s\<in>set ?xs. condition s \<noteq> Some (Inr False) \<longrightarrow>
           wid s \<in> fst ` set (wresults ?res) \<union> fst ` set (werrors ?res)"
      by (simp add: recorded_def)
  qed
  have "executeParallel (map (redeclare deps opt) ?xs) sched lag ?st0
      = (st, map (\<lambda>(s, a). (redeclare deps opt s, a)) inflight, rejection)"
    using executeParallel_redeclare[of deps opt ?xs sched lag ?st0] r
    by (simp add: redeclared_def)
  then have 6: "execute (AList.update wfname (w\<lparr>wsteps := map (redeclare deps opt) ?xs\<rparr>) workflows)
        wfname sched lag = Inr (Completed ?res (trace st @ ?tail))"
    using assms(2) by (simp add: execute_def update_conv')
  from 1 2 3 4 5 6 show ?thesis by blast
qed

text \<open>
  C1 at a workflow of two steps of which the first fails.
\<close>

theorem execute_parallel_launches_all_then_joins_witness:
  "map_of (workflowOf True [failing ''lint'' [] False, passing ''build'' [] False]) ''w'' \<noteq> None \<and>
   onError (failing ''lint'' [] False) = None \<and> onError (passing ''build'' [] False) = None \<and>
   execute (workflowOf True [failing ''lint'' [] False, passing ''build'' [] False]) ''w'' [] 0
     = Inr (Completed
             \<lparr>success = False, wresults = [(''build'', Some ''ok'')],
              werrors = [(''lint'', Error ''boom'')]\<rparr>
             [Invoked ''lint'', Invoked ''build'']) \<and>
   execute (workflowOf True [failing ''lint'' [''build''] True, passing ''build'' [''build''] True])
       ''w'' [] 0
     = execute (workflowOf True [failing ''lint'' [] False, passing ''build'' [] False]) ''w'' [] 0"
proof -
  let ?xs = "[failing ''lint'' [] False, passing ''build'' [] False]"
  let ?w = "\<lparr>workflow_id = ''workflow-0'', workflow_name = ''w'', wsteps = ?xs,
             wparallel = True\<rparr>"
  have m: "map_of (workflowOf True ?xs) ''w'' = Some ?w" by (simp add: workflowOf_def)
  have p: "wparallel ?w" by simp
  have h: "onError (failing ''lint'' [] False) = None" "onError (passing ''build'' [] False) = None"
    by (simp_all add: failing_def passing_def)
  have u: "AList.update ''w''
        (?w\<lparr>wsteps := map (redeclare (\<lambda>_. [''build'']) (\<lambda>_. True)) (wsteps ?w)\<rparr>)
        (workflowOf True ?xs)
      = workflowOf True [failing ''lint'' [''build''] True, passing ''build'' [''build''] True]"
    by (simp add: workflowOf_def redeclare_def failing_def passing_def)
  have x: "execute (workflowOf True ?xs) ''w'' [] 0
     = Inr (Completed
             \<lparr>success = False, wresults = [(''build'', Some ''ok'')],
              werrors = [(''lint'', Error ''boom'')]\<rparr>
             [Invoked ''lint'', Invoked ''build''])"
    by (simp add: execute_def workflowOf_def passing_def failing_def executeParallel_def
        launchAll_def launch_def settleAll.simps settle_def succeedStep_def failStep_def
        executeWithTimeout_def timerDelay_def timeoutOf_def retriesOf_def absorb_def)
  from execute_parallel_launches_all_then_joins
         [OF m p, of "[]" 0 "\<lambda>_. [''build'']" "\<lambda>_. True"]
  have "execute (workflowOf True [failing ''lint'' [''build''] True, passing ''build'' [''build''] True])
       ''w'' [] 0
     = execute (workflowOf True ?xs) ''w'' [] 0"
    unfolding u by auto
  with m h x show ?thesis by simp
qed

text \<open>
  C1 as stated fails: \<open>deploy\<close> declares the dependency \<open>build\<close> and is declared first;
  its action is called before the action of \<open>build\<close> is.
\<close>

theorem execute_parallel_launches_all_then_joins_counterexample:
  "execute (workflowOf True [passing ''deploy'' [''build''] False, passing ''build'' [] False])
      ''w'' [] 0
     = Inr (Completed
             \<lparr>success = True,
              wresults = [(''deploy'', Some ''ok''), (''build'', Some ''ok'')], werrors = []\<rparr>
             [Invoked ''deploy'', Invoked ''build'']) \<and>
   \<not> dependenciesFirst
        (declaredFor [passing ''deploy'' [''build''] False, passing ''build'' [] False]) []
        [Invoked ''deploy'', Invoked ''build'']"
  by (simp add: execute_def workflowOf_def passing_def executeParallel_def launchAll_def
      launch_def settleAll.simps settle_def succeedStep_def executeWithTimeout_def timerDelay_def
      timeoutOf_def retriesOf_def declaredFor_def absorb_def)

subsection \<open>Orchestrator modes (C8, C9)\<close>

text \<open>
  \<^bold>\<open>C8\<close>, as the code has it. In deployment mode, when the test step returns a result
  whose \<open>success\<close> is false, the deployer is never called, and the object returned has
  \<open>success = False\<close> and holds the phase \<open>test\<close> only. The failure is an error of the
  class \<^verbatim>\<open>Error\<close> with the message \<^verbatim>\<open>Tests must pass before deployment\<close>, which
  \<^verbatim>\<open>orchestrate\<close> catches and prints on the console; the object returned carries no error.
\<close>

theorem deployment_requires_passing_tests:
  assumes "mode cfg = ''deployment''" and "env AutoTest = Returns testResult"
    and "\<not> phase_success testResult"
  shows "orchestrate cfg env =
     \<lparr>returned = \<lparr>orchestration_success = False,
                  orchestration_phases = [(''test'', testResult)]\<rparr>,
      tools_invoked = [AutoTest],
      console_error = Some (Thrown ''Error'' ''Tests must pass before deployment'')\<rparr>"
  using assms
  by (simp add: orchestrate_def runDeploymentMode_def andThen_def runTool_def setPhase_def
      throw_def Let_def)

text \<open>
  C8 at a test run with two failures.
\<close>

theorem deployment_requires_passing_tests_witness:
  "mode deploymentConfig = ''deployment'' \<and>
   redTests AutoTest = Returns \<lparr>phase_success = False, phase_data = ''2 failed''\<rparr> \<and>
   \<not> phase_success \<lparr>phase_success = False, phase_data = ''2 failed''\<rparr> \<and>
   \<not> orchestration_success (returned (orchestrate deploymentConfig redTests)) \<and>
   AutoDeploy \<notin> set (tools_invoked (orchestrate deploymentConfig redTests)) \<and>
   console_error (orchestrate deploymentConfig redTests)
     = Some (Thrown ''Error'' ''Tests must pass before deployment'')"
proof -
  have m: "mode deploymentConfig = ''deployment''" by (simp add: deploymentConfig_def)
  have t: "redTests AutoTest = Returns \<lparr>phase_success = False, phase_data = ''2 failed''\<rparr>"
    by (simp add: redTests_def)
  have n: "\<not> phase_success \<lparr>phase_success = False, phase_data = ''2 failed''\<rparr>" by simp
  from deployment_requires_passing_tests
         [of deploymentConfig redTests "\<lparr>phase_success = False, phase_data = ''2 failed''\<rparr>",
          OF m t n] m t
  show ?thesis by simp
qed

text \<open>
  C8 as stated fails: the error the run reports is not of a class
  \<^verbatim>\<open>OrchestrationPreconditionError\<close> but a plain \<^verbatim>\<open>Error\<close>, and the object returned holds
  the success flag and the test phase, nothing else.
\<close>

theorem deployment_requires_passing_tests_counterexample:
  "map_option error_name (console_error (orchestrate deploymentConfig redTests))
     \<noteq> Some ''OrchestrationPreconditionError'' \<and>
   map_option error_name (console_error (orchestrate deploymentConfig redTests)) = Some ''Error'' \<and>
   returned (orchestrate deploymentConfig redTests)
     = \<lparr>orchestration_success = False,
        orchestration_phases = [(''test'', \<lparr>phase_success = False, phase_data = ''2 failed''\<rparr>)]\<rparr>"
  by (simp add: orchestrate_def runDeploymentMode_def andThen_def runTool_def setPhase_def
      throw_def Let_def deploymentConfig_def redTests_def)

text \<open>
  \<^bold>\<open>C9\<close> at the mode \<^verbatim>\<open>components\<close>: the \<^verbatim>\<open>switch\<close> has no such case, so no tool is
  called, no phase is recorded, and the run succeeds.
\<close>

theorem orchestrate_components_runs_nothing:
  "orchestrate componentsConfig env =
     \<lparr>returned = \<lparr>orchestration_success = True, orchestration_phases = []\<rparr>,
      tools_invoked = [], console_error = None\<rparr>"
  by (simp add: orchestrate_def componentsConfig_def proceed_def)

end
